theory Spec2Isabelle
  imports Main "HOL-Library.AList"
begin

section \<open>Data model\<close>

text \<open>
  A JavaScript string is a sequence of UTF-16 code units; a code unit is modelled as a
  natural number. \<open>str\<close> writes an ASCII literal as such a sequence.
\<close>

type_synonym jsstring = "nat list"

definition str :: "string \<Rightarrow> jsstring" where
  "str s = map of_char s"

text \<open>
  Exceptions are values. \<open>Error\<close> carries the message of a \<^verbatim>\<open>throw new Error(...)\<close> of the
  source; the others are the exceptions raised by the host's built-in functions.
\<close>

datatype error =
    Error string
  | TypeError
  | SyntaxError
  | URIError
  | InvalidCharacterError

text \<open>
  One HTTP header of the \<^verbatim>\<open>webRequest\<close> header lists. The value is optional because
  \<^verbatim>\<open>setHeaders\<close> writes whatever the tamper spec holds, which may be \<^verbatim>\<open>null\<close> for a spec
  that was never normalized.
\<close>

record header =
  name :: jsstring
  "value" :: "jsstring option"

text \<open>
  A property that the source tests against \<^verbatim>\<open>undefined\<close> or for truth: \<open>Undefined\<close> when the
  object lacks the property, \<open>Null\<close> when the property holds \<^verbatim>\<open>null\<close>, else the object or array
  it holds. An object and an array, also an empty one, are true in a condition; \<^verbatim>\<open>undefined\<close>
  and \<^verbatim>\<open>null\<close> are false.
\<close>

datatype 'a field = Undefined | Null | Val 'a

text \<open>
  The \<^verbatim>\<open>TamperSpec\<close> typedef of the page-side script. An object with string keys is the list
  of its own properties in enumeration order, which is the order of a \<^verbatim>\<open>for ... in\<close> loop; a
  property is read with \<open>map_of\<close> and removed with \<open>AList.delete\<close>. A header value in
  \<open>headers\<close> is a string or \<^verbatim>\<open>null\<close> (\<open>None\<close>). \<open>once\<close> is \<open>None\<close> when the property is absent
  or \<^verbatim>\<open>null\<close>: the source only tests it for truth. \<open>requestId\<close> is \<open>None\<close> when the property
  is absent or \<^verbatim>\<open>null\<close>: the source only assigns it and compares it with \<^verbatim>\<open>===\<close> against the
  request identifier of an event, which is a string.

  The properties \<open>headers\<close>, \<open>remove\<close>, \<open>response\<close> and \<open>opts\<close> arrive as JSON and may hold
  \<^verbatim>\<open>null\<close>. A property that holds neither \<^verbatim>\<open>undefined\<close> nor \<^verbatim>\<open>null\<close> has the type the typedef
  gives it.
\<close>

record headerMods =
  headers :: "(jsstring \<times> jsstring option) list field"
  remove :: "jsstring list field"

record tamperOpts =
  once :: "bool option"

record tamperSpec = headerMods +
  response :: "headerMods field"
  opts :: "tamperOpts field"
  requestId :: "jsstring option"
  key :: "jsstring option"

section \<open>Header transform\<close>

text \<open>
  \<^verbatim>\<open>String.prototype.toLowerCase\<close> is a parameter of every function that compares
  header names; \<open>asciiLower\<close> is the instance used on concrete inputs.
\<close>

definition asciiLower :: "jsstring \<Rightarrow> jsstring" where
  "asciiLower s = map (\<lambda>c. if 65 \<le> c \<and> c \<le> 90 then c + 32 else c) s"

text \<open>
  The inner \<^verbatim>\<open>for\<close> loop of \<^verbatim>\<open>setHeaders\<close>: it walks the header array by index, replaces
  every header whose lower-cased name equals the lower-cased key and records whether it
  found one.
\<close>

function setHeadersLoop ::
  "(jsstring \<Rightarrow> jsstring) \<Rightarrow> jsstring \<Rightarrow> jsstring option \<Rightarrow> header list \<Rightarrow> nat \<Rightarrow> bool
    \<Rightarrow> header list \<times> bool" where
  "setHeadersLoop toLowerCase toSetKey setHeaderTo hdrs headersInd foundHeaderToSet =
     (if headersInd < length hdrs then
        (let currHeaderName = name (hdrs ! headersInd) in
         if toLowerCase toSetKey \<noteq> toLowerCase currHeaderName then
           setHeadersLoop toLowerCase toSetKey setHeaderTo hdrs (headersInd + 1) foundHeaderToSet
         else
           setHeadersLoop toLowerCase toSetKey setHeaderTo
             (hdrs[headersInd := \<lparr>name = currHeaderName, value = setHeaderTo\<rparr>])
             (headersInd + 1) True)
      else (hdrs, foundHeaderToSet))"
  by pat_completeness auto
termination
  by (relation "measure (\<lambda>(lc, k, v, hdrs, i, found). length hdrs - i)") auto

text \<open>
  The call \<^verbatim>\<open>toSet.hasOwnProperty(toSetKey)\<close>. The method is looked up on \<^verbatim>\<open>toSet\<close> first: if
  \<^verbatim>\<open>toSet\<close> has a property of its own with the name \<^verbatim>\<open>hasOwnProperty\<close>, its value, a string or
  \<^verbatim>\<open>null\<close>, is what gets called, and the call raises \<^verbatim>\<open>TypeError\<close>. Otherwise the method of
  \<^verbatim>\<open>Object.prototype\<close> answers whether the key is an own property.
\<close>

definition hasOwnProperty :: "(jsstring \<times> jsstring option) list \<Rightarrow> jsstring \<Rightarrow> error + bool" where
  "hasOwnProperty obj k =
     (case map_of obj (str ''hasOwnProperty'') of
        Some v \<Rightarrow> Inl TypeError
      | None \<Rightarrow> Inr (k \<in> set (map fst obj)))"

text \<open>
  The outer \<^verbatim>\<open>for ... in\<close> loop of \<^verbatim>\<open>setHeaders\<close> over the properties of \<^verbatim>\<open>toSet\<close> that are
  still to visit, in enumeration order.
\<close>

fun setHeadersFrom ::
  "(jsstring \<Rightarrow> jsstring) \<Rightarrow> (jsstring \<times> jsstring option) list \<Rightarrow> header list
    \<Rightarrow> (jsstring \<times> jsstring option) list \<Rightarrow> error + header list" where
  "setHeadersFrom toLowerCase toSet hdrs [] = Inr hdrs"
| "setHeadersFrom toLowerCase toSet hdrs ((toSetKey, setHeaderTo) # rest) =
     (case hasOwnProperty toSet toSetKey of
        Inl e \<Rightarrow> Inl e
      | Inr own \<Rightarrow>
          if \<not> own then setHeadersFrom toLowerCase toSet hdrs rest
          else
            (case setHeadersLoop toLowerCase toSetKey setHeaderTo hdrs 0 False of
               (hdrs', foundHeaderToSet) \<Rightarrow>
                 if foundHeaderToSet then setHeadersFrom toLowerCase toSet hdrs' rest
                 else setHeadersFrom toLowerCase toSet
                        (hdrs' @ [\<lparr>name = toSetKey, value = setHeaderTo\<rparr>]) rest))"

text \<open>\<^verbatim>\<open>setHeaders(headers, toSet)\<close>.\<close>

definition setHeaders ::
  "(jsstring \<Rightarrow> jsstring) \<Rightarrow> header list \<Rightarrow> (jsstring \<times> jsstring option) list
    \<Rightarrow> error + header list" where
  "setHeaders toLowerCase hdrs toSet = setHeadersFrom toLowerCase toSet hdrs toSet"

text \<open>
  The loop of \<^verbatim>\<open>removeHeaders\<close>: \<^verbatim>\<open>splice(headerInd, 1)\<close> followed by \<^verbatim>\<open>headerInd--\<close> and
  the loop's \<^verbatim>\<open>headerInd++\<close> leaves the index where it was.
\<close>

function removeHeadersLoop ::
  "(jsstring \<Rightarrow> jsstring) \<Rightarrow> jsstring list \<Rightarrow> header list \<Rightarrow> nat \<Rightarrow> header list" where
  "removeHeadersLoop toLowerCase toRemove hdrs headerInd =
     (if headerInd < length hdrs then
        (if toLowerCase (name (hdrs ! headerInd)) \<notin> set toRemove then
           removeHeadersLoop toLowerCase toRemove hdrs (headerInd + 1)
         else
           removeHeadersLoop toLowerCase toRemove
             (take headerInd hdrs @ drop (headerInd + 1) hdrs) headerInd)
      else hdrs)"
  by pat_completeness auto
termination
  by (relation "measure (\<lambda>(lc, rm, hdrs, i). length hdrs - i)") auto

definition removeHeaders ::
  "(jsstring \<Rightarrow> jsstring) \<Rightarrow> header list \<Rightarrow> jsstring list \<Rightarrow> header list" where
  "removeHeaders toLowerCase hdrs toRemove =
     removeHeadersLoop toLowerCase (map toLowerCase toRemove) hdrs 0"

text \<open>\<^verbatim>\<open>getHeader(headers, key)\<close>: the value of the first header with that name, or \<^verbatim>\<open>null\<close>.\<close>

fun getHeader :: "(jsstring \<Rightarrow> jsstring) \<Rightarrow> header list \<Rightarrow> jsstring \<Rightarrow> jsstring option" where
  "getHeader toLowerCase [] k = None"
| "getHeader toLowerCase (h # hdrs) k =
     (if toLowerCase (name h) = toLowerCase k then value h
      else getHeader toLowerCase hdrs k)"

section \<open>Spec normalizer\<close>

text \<open>
  \<^verbatim>\<open>defaults(obj, dict)\<close> sets each property of \<^verbatim>\<open>dict\<close> for which \<^verbatim>\<open>typeof obj[key]\<close> is
  \<^verbatim>\<open>'undefined'\<close>; a property that holds \<^verbatim>\<open>null\<close> is left as it is. On a record this is one
  \<open>defaultTo\<close> per field. Reading \<^verbatim>\<open>obj[key]\<close> of an \<^verbatim>\<open>obj\<close> that is \<^verbatim>\<open>null\<close> raises
  \<^verbatim>\<open>TypeError\<close>; the callers have that branch.
\<close>

definition defaultTo :: "'a \<Rightarrow> 'a field \<Rightarrow> 'a field" where
  "defaultTo d x = (case x of Undefined \<Rightarrow> Val d | Null \<Rightarrow> Null | Val v \<Rightarrow> Val v)"

definition emptyMods :: headerMods where
  "emptyMods = \<lparr>headers = Undefined, remove = Undefined\<rparr>"

definition emptySpec :: tamperSpec where
  "emptySpec = \<lparr>headers = Undefined, remove = Undefined, response = Undefined, opts = Undefined,
                 requestId = None, key = None\<rparr>"

text \<open>
  The body of the loop of \<^verbatim>\<open>doNormalize\<close>: for each property name of \<^verbatim>\<open>obj.headers\<close>, a
  \<^verbatim>\<open>null\<close> value is deleted from \<^verbatim>\<open>headers\<close> and its name pushed on \<^verbatim>\<open>remove\<close>. Calling
  \<^verbatim>\<open>push\<close> on a \<^verbatim>\<open>remove\<close> that is \<^verbatim>\<open>null\<close> or \<^verbatim>\<open>undefined\<close> raises \<^verbatim>\<open>TypeError\<close>.
\<close>

fun doNormalizeLoop ::
  "jsstring list \<Rightarrow> 'a headerMods_scheme \<Rightarrow> error + 'a headerMods_scheme" where
  "doNormalizeLoop [] obj = Inr obj"
| "doNormalizeLoop (n # ns) obj =
     (case headers obj of
        Val hs \<Rightarrow>
          if map_of hs n = Some None then
            (case remove obj of
               Val rm \<Rightarrow>
                 doNormalizeLoop ns
                   (obj\<lparr>headers := Val (AList.delete n hs), remove := Val (rm @ [n])\<rparr>)
             | _ \<Rightarrow> Inl TypeError)
          else doNormalizeLoop ns obj
      | _ \<Rightarrow> Inl TypeError)"

text \<open>
  \<^verbatim>\<open>doNormalize(obj)\<close>: a \<^verbatim>\<open>for ... in\<close> loop over \<^verbatim>\<open>null\<close> or \<^verbatim>\<open>undefined\<close> has no
  iterations.
\<close>

definition doNormalize :: "'a headerMods_scheme \<Rightarrow> error + 'a headerMods_scheme" where
  "doNormalize obj =
     (case headers obj of
        Val hs \<Rightarrow> doNormalizeLoop (map fst hs) obj
      | _ \<Rightarrow> Inr obj)"

text \<open>
  \<^verbatim>\<open>TamperStore.prototype._normalizeTamperSpec\<close>. The parameter default \<^verbatim>\<open>tamperSpec = {}\<close>
  replaces a missing argument by the empty object; an argument \<^verbatim>\<open>null\<close> stays \<^verbatim>\<open>null\<close>, and
  the first \<^verbatim>\<open>defaults\<close> raises on it. The second \<^verbatim>\<open>defaults\<close> raises on a \<^verbatim>\<open>response\<close> that
  is \<^verbatim>\<open>null\<close>. (After the first \<^verbatim>\<open>defaults\<close> the \<^verbatim>\<open>response\<close> is not \<^verbatim>\<open>undefined\<close>; were it so,
  \<^verbatim>\<open>doNormalize\<close> would raise on reading \<^verbatim>\<open>obj.headers\<close>.)
\<close>

definition normalizeTamperSpec :: "tamperSpec field \<Rightarrow> error + tamperSpec" where
  "normalizeTamperSpec arg =
     (case arg of
        Null \<Rightarrow> Inl TypeError
      | _ \<Rightarrow>
     (let tamperSpec0 = (case arg of Val s \<Rightarrow> s | _ \<Rightarrow> emptySpec);
          tamperSpec1 = tamperSpec0
            \<lparr>headers := defaultTo [] (headers tamperSpec0),
             remove := defaultTo [] (remove tamperSpec0),
             response := defaultTo emptyMods (response tamperSpec0),
             opts := defaultTo \<lparr>once = None\<rparr> (opts tamperSpec0)\<rparr>
      in case response tamperSpec1 of
           Val r0 \<Rightarrow>
             (let r1 = r0\<lparr>headers := defaultTo [] (headers r0),
                          remove := defaultTo [] (remove r0)\<rparr>;
                  tamperSpec2 = tamperSpec1\<lparr>response := Val r1\<rparr>
              in case doNormalize tamperSpec2 of
                   Inl e \<Rightarrow> Inl e
                 | Inr tamperSpec3 \<Rightarrow>
                     (case response tamperSpec3 of
                        Val r2 \<Rightarrow>
                          (case doNormalize r2 of
                             Inl e \<Rightarrow> Inl e
                           | Inr r3 \<Rightarrow> Inr (tamperSpec3\<lparr>response := Val r3\<rparr>))
                      | _ \<Rightarrow> Inl TypeError))
         | _ \<Rightarrow> Inl TypeError))"

section \<open>Tamper store\<close>

text \<open>
  A \<^verbatim>\<open>RegexSpec\<close> is the pair of a pattern text and optional flags. The regular-expression
  engine of the host is a parameter: it compiles a spec to the test "this url has a
  match", or fails (\<open>None\<close>) where \<^verbatim>\<open>new RegExp\<close> raises \<^verbatim>\<open>SyntaxError\<close>.
\<close>

type_synonym regexSpec = "jsstring \<times> jsstring option"

type_synonym regexEngine = "regexSpec \<Rightarrow> (jsstring \<Rightarrow> bool) option"

record patternEntry =
  regexes :: "regexSpec list field"
  urls :: "jsstring list field"
  tamper :: "tamperSpec field"

text \<open>
  The store: \<^verbatim>\<open>_data\<close> is an object used as a map from composite keys to specs, kept as
  the list of its own properties in enumeration order; \<^verbatim>\<open>_patternMods\<close> is an array. A key
  that names a member of \<^verbatim>\<open>Object.prototype\<close> is outside the model: reading it finds the
  inherited member, and assigning to \<^verbatim>\<open>__proto__\<close> changes the prototype of \<^verbatim>\<open>_data\<close> instead
  of adding a property. The composite keys of \<^verbatim>\<open>makeKey\<close> contain \<^verbatim>\<open>::\<close> and are never such a
  name.
\<close>

record tamperStore =
  data :: "(jsstring \<times> tamperSpec) list"
  patternMods :: "patternEntry list"

definition TamperStore :: tamperStore where
  "TamperStore = \<lparr>data = [], patternMods = []\<rparr>"

text \<open>
  \<^verbatim>\<open>deepClone\<close> is a JSON round trip. The values of this model are immutable and hold
  nothing that JSON cannot represent, so the copy of an object, an array or \<^verbatim>\<open>null\<close> equals
  its argument. \<^verbatim>\<open>JSON.stringify(undefined)\<close> is \<^verbatim>\<open>undefined\<close>, on which \<^verbatim>\<open>JSON.parse\<close> raises
  \<^verbatim>\<open>SyntaxError\<close>: a caller whose argument may be \<^verbatim>\<open>undefined\<close> has that branch.
\<close>

definition deepClone :: "'a \<Rightarrow> 'a" where
  "deepClone obj = obj"

definition makeRegex :: "regexEngine \<Rightarrow> regexSpec \<Rightarrow> error + (jsstring \<Rightarrow> bool)" where
  "makeRegex engine regexSpec =
     (case engine regexSpec of None \<Rightarrow> Inl SyntaxError | Some m \<Rightarrow> Inr m)"

text \<open>Decimal digits of a natural number, and \<^verbatim>\<open>Number\<close> to string for an integer.\<close>

fun natDigits :: "nat \<Rightarrow> jsstring" where
  "natDigits n = (if n < 10 then [48 + n] else natDigits (n div 10) @ [48 + n mod 10])"

definition numberToString :: "int \<Rightarrow> jsstring" where
  "numberToString i = (if i < 0 then 45 # natDigits (nat (- i)) else natDigits (nat i))"

definition makeKey :: "int \<Rightarrow> int \<Rightarrow> jsstring \<Rightarrow> jsstring" where
  "makeKey tabId frameId url =
     numberToString tabId @ str ''::'' @ numberToString frameId @ str ''::'' @ url"

text \<open>
  \<^verbatim>\<open>addPattern(params)\<close>. The two tests are \<^verbatim>\<open>typeof ... === "undefined"\<close>, so a property
  that holds \<^verbatim>\<open>null\<close> passes them.
\<close>

definition addPattern :: "tamperStore \<Rightarrow> patternEntry \<Rightarrow> error + tamperStore" where
  "addPattern st params =
     (if regexes params = Undefined \<and> urls params = Undefined then
        Inl (Error ''neither params.regexes nor params.urls specified.'')
      else if tamper params = Undefined then
        Inl (Error ''params.tamper not specified.'')
      else
        (let params1 = deepClone params in
         case normalizeTamperSpec (tamper params1) of
           Inl e \<Rightarrow> Inl e
         | Inr t' \<Rightarrow>
             Inr (st\<lparr>patternMods := params1\<lparr>tamper := Val t'\<rparr> # patternMods st\<rparr>)))"

text \<open>
  The own property keys of an object are enumerated with the array indices first, in
  ascending numeric order, and the other strings after them in the order in which the
  properties were created. An array index is the canonical decimal numeral of an integer
  below \<open>2^32 - 1\<close>.
\<close>

definition digitsValue :: "jsstring \<Rightarrow> nat" where
  "digitsValue k = foldl (\<lambda>n c. 10 * n + (c - 48)) 0 k"

definition isArrayIndex :: "jsstring \<Rightarrow> bool" where
  "isArrayIndex k =
     (k \<noteq> [] \<and> list_all (\<lambda>c. 48 \<le> c \<and> c \<le> 57) k \<and> (hd k \<noteq> 48 \<or> length k = 1) \<and>
      digitsValue k < 4294967295)"

fun insertIndex :: "jsstring \<Rightarrow> 'v \<Rightarrow> (jsstring \<times> 'v) list \<Rightarrow> (jsstring \<times> 'v) list" where
  "insertIndex k v [] = [(k, v)]"
| "insertIndex k v (p # rest) =
     (if isArrayIndex (fst p) \<and> digitsValue (fst p) < digitsValue k
      then p # insertIndex k v rest
      else (k, v) # p # rest)"

text \<open>
  The assignment \<^verbatim>\<open>obj[key] = value\<close>: a property that exists keeps its place; a new
  property takes the place its key has in the enumeration order.
\<close>

definition assignProperty :: "jsstring \<Rightarrow> 'v \<Rightarrow> (jsstring \<times> 'v) list \<Rightarrow> (jsstring \<times> 'v) list" where
  "assignProperty k v obj =
     (if isArrayIndex k \<and> k \<notin> set (map fst obj) then insertIndex k v obj
      else AList.update k v obj)"

text \<open>
  \<^verbatim>\<open>setDirect(key, value)\<close>. The value is an object, \<^verbatim>\<open>null\<close> or \<^verbatim>\<open>undefined\<close>; \<^verbatim>\<open>deepClone\<close>
  raises on \<^verbatim>\<open>undefined\<close>.
\<close>

definition setDirect :: "tamperStore \<Rightarrow> jsstring \<Rightarrow> tamperSpec field \<Rightarrow> error + tamperStore" where
  "setDirect st k v =
     (if v = Undefined then Inl SyntaxError
      else
        (case normalizeTamperSpec (deepClone v) of
           Inl e \<Rightarrow> Inl e
         | Inr v' \<Rightarrow> Inr (st\<lparr>data := assignProperty k (v'\<lparr>key := Some k\<rparr>) (data st)\<rparr>)))"

definition getDirect :: "tamperStore \<Rightarrow> jsstring \<Rightarrow> tamperSpec option" where
  "getDirect st k =
     (case map_of (data st) k of None \<Rightarrow> None | Some v \<Rightarrow> Some (deepClone v))"

definition removeDirect :: "tamperStore \<Rightarrow> jsstring \<Rightarrow> tamperStore" where
  "removeDirect st k = st\<lparr>data := AList.delete k (data st)\<rparr>"

definition set' ::
  "tamperStore \<Rightarrow> int \<Rightarrow> int \<Rightarrow> jsstring \<Rightarrow> tamperSpec field \<Rightarrow> error + tamperStore" where
  "set' st tabId frameId url modifyOpts = setDirect st (makeKey tabId frameId url) modifyOpts"

text \<open>
  \<^verbatim>\<open>getByRequestId\<close>: the \<^verbatim>\<open>for ... in\<close> loop over the properties of \<^verbatim>\<open>_data\<close> in
  enumeration order, returning a copy of the first spec whose \<^verbatim>\<open>requestId\<close> is the one asked
  for.
\<close>

fun getByRequestIdLoop :: "(jsstring \<times> tamperSpec) list \<Rightarrow> jsstring \<Rightarrow> tamperSpec option" where
  "getByRequestIdLoop [] rid = None"
| "getByRequestIdLoop ((k, modifyOpts) # rest) rid =
     (if requestId modifyOpts = Some rid then Some (deepClone modifyOpts)
      else getByRequestIdLoop rest rid)"

definition getByRequestId :: "tamperStore \<Rightarrow> jsstring \<Rightarrow> tamperSpec option" where
  "getByRequestId st rid = getByRequestIdLoop (data st) rid"

text \<open>
  \<^verbatim>\<open>regexes.some(regex => url.match(makeRegex(regex)))\<close>: the regexes are tried in order
  until one matches; a regex that does not compile raises on the way.
\<close>

fun someRegex :: "regexEngine \<Rightarrow> jsstring \<Rightarrow> regexSpec list \<Rightarrow> error + bool" where
  "someRegex engine url [] = Inr False"
| "someRegex engine url (regex # rest) =
     (case makeRegex engine regex of
        Inl e \<Rightarrow> Inl e
      | Inr m \<Rightarrow> if m url then Inr True else someRegex engine url rest)"

text \<open>
  The callback of \<^verbatim>\<open>_scanPatternMods\<close> for one entry: an entry whose \<^verbatim>\<open>regexes\<close> is an array
  is matched by the regexes alone; an entry whose \<^verbatim>\<open>regexes\<close> is absent or \<^verbatim>\<open>null\<close> is
  matched by its \<^verbatim>\<open>urls\<close>, and reading \<^verbatim>\<open>urls.some\<close> raises \<^verbatim>\<open>TypeError\<close> when \<^verbatim>\<open>urls\<close> is absent
  or \<^verbatim>\<open>null\<close> too.
\<close>

definition entryMatched :: "regexEngine \<Rightarrow> jsstring \<Rightarrow> patternEntry \<Rightarrow> error + bool" where
  "entryMatched engine url patternEntry =
     (case regexes patternEntry of
        Val rs \<Rightarrow> someRegex engine url rs
      | _ \<Rightarrow>
          (case urls patternEntry of
             Val us \<Rightarrow> Inr (url \<in> set us)
           | _ \<Rightarrow> Inl TypeError))"

text \<open>
  The outer \<^verbatim>\<open>some\<close> of \<^verbatim>\<open>_scanPatternMods\<close>. The result is the value of the variable
  \<^verbatim>\<open>tamperSpec\<close>: \<^verbatim>\<open>null\<close> as long as no entry matched, else the \<^verbatim>\<open>tamper\<close> property of the
  first matched entry.
\<close>

fun scanLoop ::
  "regexEngine \<Rightarrow> jsstring \<Rightarrow> patternEntry list \<Rightarrow> error + tamperSpec field" where
  "scanLoop engine url [] = Inr Null"
| "scanLoop engine url (patternEntry # rest) =
     (case entryMatched engine url patternEntry of
        Inl e \<Rightarrow> Inl e
      | Inr matched \<Rightarrow>
          if matched then Inr (tamper patternEntry)
          else scanLoop engine url rest)"

text \<open>
  \<^verbatim>\<open>_scanPatternMods\<close> ends with \<^verbatim>\<open>deepClone(tamperSpec)\<close>: \<^verbatim>\<open>null\<close> is copied to \<^verbatim>\<open>null\<close>
  (\<open>None\<close> in the result), \<^verbatim>\<open>undefined\<close> makes \<^verbatim>\<open>JSON.parse\<close> raise \<^verbatim>\<open>SyntaxError\<close>.
\<close>

definition scanPatternMods :: "regexEngine \<Rightarrow> tamperStore \<Rightarrow> jsstring \<Rightarrow> error + tamperSpec option" where
  "scanPatternMods engine st url =
     (case scanLoop engine url (patternMods st) of
        Inl e \<Rightarrow> Inl e
      | Inr Undefined \<Rightarrow> Inl SyntaxError
      | Inr Null \<Rightarrow> Inr None
      | Inr (Val t) \<Rightarrow> Inr (Some (deepClone t)))"

definition get ::
  "regexEngine \<Rightarrow> tamperStore \<Rightarrow> int \<Rightarrow> int \<Rightarrow> jsstring \<Rightarrow> error + tamperSpec option" where
  "get engine st tabId frameId url =
     (let k = makeKey tabId frameId url;
          tamperSpec = getDirect st k
      in case tamperSpec of
           Some t \<Rightarrow> Inr (Some t)
         | None \<Rightarrow> scanPatternMods engine st url)"

section \<open>Spec transport codec\<close>

subsection \<open>Host functions: base64\<close>

text \<open>
  \<^verbatim>\<open>btoa\<close> of the HTML standard: a string with a code unit above 255 raises
  \<^verbatim>\<open>InvalidCharacterError\<close>; otherwise the code units are bytes, encoded three at a time
  with the alphabet \<^verbatim>\<open>A-Z a-z 0-9 + /\<close> and padded with \<^verbatim>\<open>=\<close>.
\<close>

definition b64char :: "nat \<Rightarrow> nat" where
  "b64char i =
     (if i < 26 then 65 + i
      else if i < 52 then 71 + i
      else if i < 62 then i - 4
      else if i = 62 then 43
      else 47)"

fun btoaLoop :: "nat list \<Rightarrow> jsstring" where
  "btoaLoop [] = []"
| "btoaLoop [a] = [b64char (a div 4), b64char ((a mod 4) * 16), 61, 61]"
| "btoaLoop [a, b] =
     [b64char (a div 4), b64char ((a mod 4) * 16 + b div 16), b64char ((b mod 16) * 4), 61]"
| "btoaLoop (a # b # c # rest) =
     [b64char (a div 4), b64char ((a mod 4) * 16 + b div 16),
      b64char ((b mod 16) * 4 + c div 64), b64char (c mod 64)] @ btoaLoop rest"

definition btoa :: "jsstring \<Rightarrow> error + jsstring" where
  "btoa s = (if \<exists>c \<in> set s. 255 < c then Inl InvalidCharacterError else Inr (btoaLoop s))"

text \<open>
  \<^verbatim>\<open>atob\<close> is the forgiving base64 decoder of the HTML standard: ASCII whitespace is
  dropped; when the length is a multiple of four, one or two trailing \<^verbatim>\<open>=\<close> are dropped;
  a length of one modulo four or a character outside the alphabet raises
  \<^verbatim>\<open>InvalidCharacterError\<close>; the sextets are then regrouped into bytes and the leftover
  bits of the last group are discarded.
\<close>

definition b64val :: "nat \<Rightarrow> nat option" where
  "b64val c =
     (if 65 \<le> c \<and> c \<le> 90 then Some (c - 65)
      else if 97 \<le> c \<and> c \<le> 122 then Some (c - 71)
      else if 48 \<le> c \<and> c \<le> 57 then Some (c + 4)
      else if c = 43 then Some 62
      else if c = 47 then Some 63
      else None)"

definition isAsciiWhitespace :: "nat \<Rightarrow> bool" where
  "isAsciiWhitespace c = (c = 9 \<or> c = 10 \<or> c = 12 \<or> c = 13 \<or> c = 32)"

definition stripPadding :: "jsstring \<Rightarrow> jsstring" where
  "stripPadding d =
     (if length d mod 4 = 0 \<and> d \<noteq> [] \<and> last d = 61 then
        (if butlast d \<noteq> [] \<and> last (butlast d) = 61 then butlast (butlast d) else butlast d)
      else d)"

fun atobLoop :: "nat list \<Rightarrow> nat list" where
  "atobLoop (a # b # c # d # rest) =
     [a * 4 + b div 16, (b mod 16) * 16 + c div 4, (c mod 4) * 64 + d] @ atobLoop rest"
| "atobLoop [a, b, c] = [a * 4 + b div 16, (b mod 16) * 16 + c div 4]"
| "atobLoop [a, b] = [a * 4 + b div 16]"
| "atobLoop [a] = []"
| "atobLoop [] = []"

definition atob :: "jsstring \<Rightarrow> error + jsstring" where
  "atob s =
     (let d = stripPadding (filter (\<lambda>c. \<not> isAsciiWhitespace c) s) in
      if length d mod 4 = 1 then Inl InvalidCharacterError
      else (case those (map b64val d) of
              None \<Rightarrow> Inl InvalidCharacterError
            | Some sextets \<Rightarrow> Inr (atobLoop sextets)))"

subsection \<open>Host functions: URI component coding\<close>

text \<open>
  \<^verbatim>\<open>encodeURIComponent\<close> (ECMA-262, Encode with the unreserved set
  \<^verbatim>\<open>A-Z a-z 0-9 - _ . ! ~ * ' ( )\<close>): an unreserved code unit is copied; any other is read
  as a code point, pairing surrogates, and each octet of its UTF-8 encoding is written as
  \<^verbatim>\<open>%XX\<close> in upper-case hexadecimal. An unpaired surrogate raises \<^verbatim>\<open>URIError\<close>.
\<close>

definition isUnreserved :: "nat \<Rightarrow> bool" where
  "isUnreserved c =
     ((65 \<le> c \<and> c \<le> 90) \<or> (97 \<le> c \<and> c \<le> 122) \<or> (48 \<le> c \<and> c \<le> 57) \<or>
      c = 45 \<or> c = 95 \<or> c = 46 \<or> c = 33 \<or> c = 126 \<or> c = 42 \<or> c = 39 \<or> c = 40 \<or> c = 41)"

definition isLeadSurrogate :: "nat \<Rightarrow> bool" where
  "isLeadSurrogate c = (55296 \<le> c \<and> c \<le> 56319)"

definition isTrailSurrogate :: "nat \<Rightarrow> bool" where
  "isTrailSurrogate c = (56320 \<le> c \<and> c \<le> 57343)"

definition utf8 :: "nat \<Rightarrow> nat list" where
  "utf8 cp =
     (if cp < 128 then [cp]
      else if cp < 2048 then [192 + cp div 64, 128 + cp mod 64]
      else if cp < 65536 then [224 + cp div 4096, 128 + (cp div 64) mod 64, 128 + cp mod 64]
      else [240 + cp div 262144, 128 + (cp div 4096) mod 64, 128 + (cp div 64) mod 64,
            128 + cp mod 64])"

definition hexUpper :: "nat \<Rightarrow> nat" where
  "hexUpper d = (if d < 10 then 48 + d else 55 + d)"

definition pctUpper :: "nat \<Rightarrow> jsstring" where
  "pctUpper b = [37, hexUpper (b div 16), hexUpper (b mod 16)]"

fun encodeURIComponent :: "jsstring \<Rightarrow> error + jsstring" where
  "encodeURIComponent [] = Inr []"
| "encodeURIComponent (c # rest) =
     (if isUnreserved c then
        (case encodeURIComponent rest of Inl e \<Rightarrow> Inl e | Inr r \<Rightarrow> Inr (c # r))
      else if isTrailSurrogate c then Inl URIError
      else if isLeadSurrogate c then
        (case rest of
           [] \<Rightarrow> Inl URIError
         | d # rest' \<Rightarrow>
             if isTrailSurrogate d then
               (case encodeURIComponent rest' of
                  Inl e \<Rightarrow> Inl e
                | Inr r \<Rightarrow>
                    Inr (concat (map pctUpper
                           (utf8 ((c - 55296) * 1024 + (d - 56320) + 65536))) @ r))
             else Inl URIError)
      else
        (case encodeURIComponent rest of
           Inl e \<Rightarrow> Inl e
         | Inr r \<Rightarrow> Inr (concat (map pctUpper (utf8 c)) @ r)))"

text \<open>
  \<^verbatim>\<open>decodeURIComponent\<close> (ECMA-262, Decode with no reserved character): a code unit other
  than \<^verbatim>\<open>%\<close> is copied; \<^verbatim>\<open>%\<close> must be followed by two hexadecimal digits giving an octet;
  an octet below 128 is a character, an octet with two to four leading one-bits starts a
  UTF-8 sequence whose further octets are escaped likewise; the sequence must be the
  valid UTF-8 encoding of a code point, which is written in UTF-16. Everything else raises
  \<^verbatim>\<open>URIError\<close>.
\<close>

definition isHexDigit :: "nat \<Rightarrow> bool" where
  "isHexDigit c = ((48 \<le> c \<and> c \<le> 57) \<or> (65 \<le> c \<and> c \<le> 70) \<or> (97 \<le> c \<and> c \<le> 102))"

definition hexDigitVal :: "nat \<Rightarrow> nat" where
  "hexDigitVal c = (if c \<le> 57 then c - 48 else if c \<le> 70 then c - 55 else c - 87)"

fun parseHexOctet :: "jsstring \<Rightarrow> (nat \<times> jsstring) option" where
  "parseHexOctet (h1 # h2 # rest) =
     (if isHexDigit h1 \<and> isHexDigit h2 then Some (16 * hexDigitVal h1 + hexDigitVal h2, rest)
      else None)"
| "parseHexOctet [h1] = None"
| "parseHexOctet [] = None"

fun readContinuation :: "nat \<Rightarrow> jsstring \<Rightarrow> (nat list \<times> jsstring) option" where
  "readContinuation 0 s = Some ([], s)"
| "readContinuation (Suc j) [] = None"
| "readContinuation (Suc j) (p # s1) =
     (if p \<noteq> 37 then None
      else (case parseHexOctet s1 of
              None \<Rightarrow> None
            | Some (b, s2) \<Rightarrow>
                (case readContinuation j s2 of
                   None \<Rightarrow> None
                 | Some (bs, s3) \<Rightarrow> Some (b # bs, s3))))"

definition leadingOnes :: "nat \<Rightarrow> nat" where
  "leadingOnes b =
     (if b < 128 then 0 else if b < 192 then 1 else if b < 224 then 2
      else if b < 240 then 3 else if b < 248 then 4 else 5)"

definition isContinuation :: "nat \<Rightarrow> bool" where
  "isContinuation b = (128 \<le> b \<and> b < 192)"

text \<open>
  The code point of a valid UTF-8 sequence of two to four octets: continuation octets
  carry six bits each, and the shortest encoding, the surrogate gap and the upper bound
  of Unicode are enforced.
\<close>

fun utf8Decode :: "nat list \<Rightarrow> nat option" where
  "utf8Decode [b0, b1] =
     (let cp = (b0 - 192) * 64 + (b1 - 128) in
      if isContinuation b1 \<and> 128 \<le> cp then Some cp else None)"
| "utf8Decode [b0, b1, b2] =
     (let cp = (b0 - 224) * 4096 + (b1 - 128) * 64 + (b2 - 128) in
      if isContinuation b1 \<and> isContinuation b2 \<and> 2048 \<le> cp \<and>
         \<not> (55296 \<le> cp \<and> cp \<le> 57343) then Some cp else None)"
| "utf8Decode [b0, b1, b2, b3] =
     (let cp = (b0 - 240) * 262144 + (b1 - 128) * 4096 + (b2 - 128) * 64 + (b3 - 128) in
      if isContinuation b1 \<and> isContinuation b2 \<and> isContinuation b3 \<and>
         65536 \<le> cp \<and> cp \<le> 1114111 then Some cp else None)"
| "utf8Decode bs = None"

definition utf16 :: "nat \<Rightarrow> jsstring" where
  "utf16 cp =
     (if cp < 65536 then [cp]
      else [55296 + (cp - 65536) div 1024, 56320 + (cp - 65536) mod 1024])"

function decodeURIComponent :: "jsstring \<Rightarrow> error + jsstring" where
  "decodeURIComponent [] = Inr []"
| "decodeURIComponent (c # rest) =
     (if c \<noteq> 37 then
        (case decodeURIComponent rest of Inl e \<Rightarrow> Inl e | Inr r \<Rightarrow> Inr (c # r))
      else
        (case parseHexOctet rest of
           None \<Rightarrow> Inl URIError
         | Some (b, rest1) \<Rightarrow>
             if leadingOnes b = 0 then
               (case decodeURIComponent rest1 of Inl e \<Rightarrow> Inl e | Inr r \<Rightarrow> Inr (b # r))
             else if leadingOnes b = 1 \<or> 4 < leadingOnes b then Inl URIError
             else
               (case readContinuation (leadingOnes b - 1) rest1 of
                  None \<Rightarrow> Inl URIError
                | Some (octets, rest2) \<Rightarrow>
                    (case utf8Decode (b # octets) of
                       None \<Rightarrow> Inl URIError
                     | Some cp \<Rightarrow>
                         (case decodeURIComponent rest2 of
                            Inl e \<Rightarrow> Inl e
                          | Inr r \<Rightarrow> Inr (utf16 cp @ r))))))"
  by pat_completeness auto
termination
proof -
  have p: "length r < length s" if "parseHexOctet s = Some (b, r)" for s b r
    using that by (induction s rule: parseHexOctet.induct) (auto split: if_splits)
  have q: "length r \<le> length s" if "readContinuation j s = Some (bs, r)" for j s bs r
    using that
  proof (induction j s arbitrary: bs r rule: readContinuation.induct)
    case (3 j p' s1)
    then show ?case
      by (fastforce split: if_splits option.splits dest: p)
  qed auto
  show ?thesis
  proof (relation "measure length")
    fix c :: nat and rest rest1 rest2 :: jsstring and x2 x2a b octets
    assume a: "parseHexOctet rest = Some x2" "(b, rest1) = x2"
      "readContinuation (leadingOnes b - 1) rest1 = Some x2a" "(octets, rest2) = x2a"
    from a(1,2) have "length rest1 < length rest" using p[of rest b rest1] by simp
    moreover from a(3,4) have "length rest2 \<le> length rest1"
      using q[of "leadingOnes b - 1" rest1 octets rest2] by simp
    ultimately show "(rest2, c # rest) \<in> measure length" by simp
  qed (auto dest: p)
qed

subsection \<open>The codec of the source\<close>

text \<open>
  The callback of \<^verbatim>\<open>replace(/%([0-9A-F]{2})/g, ...)\<close>: every \<^verbatim>\<open>%\<close> followed by two
  upper-case hexadecimal digits becomes the code unit with that number; the scan goes
  left to right and resumes after each replacement.
\<close>

definition isUpperHex :: "nat \<Rightarrow> bool" where
  "isUpperHex c = ((48 \<le> c \<and> c \<le> 57) \<or> (65 \<le> c \<and> c \<le> 70))"

fun toSolidBytes :: "jsstring \<Rightarrow> jsstring" where
  "toSolidBytes (p # a # b # rest) =
     (if p = 37 \<and> isUpperHex a \<and> isUpperHex b then
        (16 * hexDigitVal a + hexDigitVal b) # toSolidBytes rest
      else p # toSolidBytes (a # b # rest))"
| "toSolidBytes s = s"

definition b64EncodeUnicode :: "jsstring \<Rightarrow> error + jsstring" where
  "b64EncodeUnicode s =
     (case encodeURIComponent s of
        Inl e \<Rightarrow> Inl e
      | Inr escaped \<Rightarrow> btoa (toSolidBytes escaped))"

text \<open>
  \<^verbatim>\<open>'%' + ('00' + c.charCodeAt(0).toString(16)).slice(-2)\<close>: the last two lower-case
  hexadecimal digits of the code unit, zero padded.
\<close>

definition hexLower :: "nat \<Rightarrow> nat" where
  "hexLower d = (if d < 10 then 48 + d else 87 + d)"

definition pctLower :: "nat \<Rightarrow> jsstring" where
  "pctLower c = [37, hexLower ((c div 16) mod 16), hexLower (c mod 16)]"

definition b64DecodeUnicode :: "jsstring \<Rightarrow> error + jsstring" where
  "b64DecodeUnicode s =
     (case atob s of
        Inl e \<Rightarrow> Inl e
      | Inr bytes \<Rightarrow> decodeURIComponent (concat (map pctLower bytes)))"

text \<open>
  \<^verbatim>\<open>JSON.parse\<close> and \<^verbatim>\<open>JSON.stringify\<close> are parameters: \<open>parse\<close> reads a JSON text as a
  tamper spec or as \<^verbatim>\<open>null\<close>, or raises; \<open>stringify\<close> writes a tamper spec as JSON text.
\<close>

definition decodeReqModifyOpts ::
  "(jsstring \<Rightarrow> error + tamperSpec field) \<Rightarrow> jsstring \<Rightarrow> error + tamperSpec field" where
  "decodeReqModifyOpts parse s =
     (case b64DecodeUnicode s of Inl e \<Rightarrow> Inl e | Inr text \<Rightarrow> parse text)"

definition makeUrl :: "(tamperSpec \<Rightarrow> jsstring) \<Rightarrow> jsstring \<Rightarrow> tamperSpec \<Rightarrow> error + jsstring" where
  "makeUrl stringify url tamperSpec =
     (case b64EncodeUnicode (stringify tamperSpec) of
        Inl e \<Rightarrow> Inl e
      | Inr token \<Rightarrow> Inr (url @ str ''$TamperApi:'' @ token))"

section \<open>Request lifecycle driver\<close>

text \<open>
  The fields of the \<^verbatim>\<open>details\<close> object of the three \<^verbatim>\<open>webRequest\<close> events that the
  listeners read. The request identifier of an event is the field \<open>eventRequestId\<close>.
\<close>

record details =
  tabId :: int
  frameId :: int
  url :: jsstring
  eventRequestId :: jsstring
  statusCode :: int
  requestHeaders :: "header list"
  responseHeaders :: "header list"

text \<open>
  The match of \<^verbatim>\<open>/^(.*)(\$TamperApi:)([^\/]*)$/\<close> against a url, as the pair of groups 1
  and 3. The greedy \<^verbatim>\<open>(.*)\<close> takes the longest prefix without a line terminator after
  which the marker and then no \<^verbatim>\<open>/\<close> up to the end follow. The first argument is the
  prefix already passed over.
\<close>

definition isLineTerminator :: "nat \<Rightarrow> bool" where
  "isLineTerminator c = (c = 10 \<or> c = 13 \<or> c = 8232 \<or> c = 8233)"

fun matchTamperUrl :: "jsstring \<Rightarrow> jsstring \<Rightarrow> (jsstring \<times> jsstring) option" where
  "matchTamperUrl pre [] = None"
| "matchTamperUrl pre (c # cs) =
     (case (if isLineTerminator c then None else matchTamperUrl (pre @ [c]) cs) of
        Some m \<Rightarrow> Some m
      | None \<Rightarrow>
          if take 11 (c # cs) = str ''$TamperApi:'' \<and> 47 \<notin> set (drop 11 (c # cs))
          then Some (pre, drop 11 (c # cs))
          else None)"

text \<open>
  Every listener returns the store it leaves behind together with its outcome: the
  exception it raised, or the value it returned (\<open>None\<close> for no return value). In
  \<^verbatim>\<open>onBeforeRequest\<close> the assignment \<^verbatim>\<open>reqModifyOpts.requestId = null\<close> raises \<^verbatim>\<open>TypeError\<close> when
  the decoded value is \<^verbatim>\<open>null\<close>.
\<close>

definition onBeforeRequest ::
  "(jsstring \<Rightarrow> error + tamperSpec field) \<Rightarrow> tamperStore \<Rightarrow> details
    \<Rightarrow> tamperStore \<times> (error + jsstring option)" where
  "onBeforeRequest parse st d =
     (case matchTamperUrl [] (url d) of
        None \<Rightarrow> (st, Inr None)
      | Some (origUrl, token) \<Rightarrow>
          (case decodeReqModifyOpts parse token of
             Inl e \<Rightarrow> (st, Inl e)
           | Inr (Val reqModifyOpts) \<Rightarrow>
               (case set' st (tabId d) (frameId d) origUrl
                       (Val (reqModifyOpts\<lparr>requestId := None\<rparr>)) of
                  Inl e \<Rightarrow> (st, Inl e)
                | Inr st' \<Rightarrow> (st', Inr (Some origUrl)))
           | Inr _ \<Rightarrow> (st, Inl TypeError)))"

definition onBeforeSendHeaders ::
  "(jsstring \<Rightarrow> jsstring) \<Rightarrow> regexEngine \<Rightarrow> tamperStore \<Rightarrow> details
    \<Rightarrow> tamperStore \<times> (error + header list option)" where
  "onBeforeSendHeaders toLowerCase engine st d =
     (case get engine st (tabId d) (frameId d) (url d) of
        Inl e \<Rightarrow> (st, Inl e)
      | Inr None \<Rightarrow> (st, Inr None)
      | Inr (Some reqModifyOpts) \<Rightarrow>
          (case (case headers reqModifyOpts of
                   Val toSet \<Rightarrow> setHeaders toLowerCase (requestHeaders d) toSet
                 | _ \<Rightarrow> Inr (requestHeaders d)) of
             Inl e \<Rightarrow> (st, Inl e)
           | Inr requestHeaders1 \<Rightarrow>
               (let requestHeaders2 =
                      (case remove reqModifyOpts of
                         Val toRemove \<Rightarrow> removeHeaders toLowerCase requestHeaders1 toRemove
                       | _ \<Rightarrow> requestHeaders1)
                in case set' st (tabId d) (frameId d) (url d)
                          (Val (reqModifyOpts\<lparr>requestId := Some (eventRequestId d)\<rparr>)) of
                     Inl e \<Rightarrow> (st, Inl e)
                   | Inr st' \<Rightarrow> (st', Inr (Some requestHeaders2)))))"

text \<open>
  \<^verbatim>\<open>checkIfRedirect\<close>: \<open>None\<close> if the status is not 301 or 302, else the redirect target;
  a redirect status without a \<^verbatim>\<open>Location\<close> header raises.
\<close>

definition checkIfRedirect :: "(jsstring \<Rightarrow> jsstring) \<Rightarrow> details \<Rightarrow> error + jsstring option" where
  "checkIfRedirect toLowerCase d =
     (if statusCode d = 301 \<or> statusCode d = 302 then
        (case getHeader toLowerCase (responseHeaders d) (str ''Location'') of
           None \<Rightarrow>
             Inl (Error ''tamperApi::checkIfRedirect: found 301 status but no location header.'')
         | Some redirectTarget \<Rightarrow> Inr (Some redirectTarget))
      else Inr None)"

text \<open>
  The response-phase header changes of \<^verbatim>\<open>onHeadersReceived\<close>. \<^verbatim>\<open>setHeaders\<close> and
  \<^verbatim>\<open>removeHeaders\<close> change the array they are given and return it, so after them
  \<^verbatim>\<open>details.responseHeaders\<close> is the changed list as well. The result is that list and the
  value of the variable \<^verbatim>\<open>responseHeaders\<close> (\<open>None\<close> for \<^verbatim>\<open>null\<close>). \<^verbatim>\<open>setHeaders\<close> raises, if
  it does, before it has changed the array.
\<close>

definition applyResponseMods ::
  "(jsstring \<Rightarrow> jsstring) \<Rightarrow> tamperSpec \<Rightarrow> header list
    \<Rightarrow> error + header list \<times> header list option" where
  "applyResponseMods toLowerCase reqModifyOpts hdrs =
     (case response reqModifyOpts of
        Val r \<Rightarrow>
          (case (case headers r of
                   Val toSet \<Rightarrow> setHeaders toLowerCase hdrs toSet
                 | _ \<Rightarrow> Inr hdrs) of
             Inl e \<Rightarrow> Inl e
           | Inr responseHeaders1 \<Rightarrow>
               (let responseHeaders2 =
                      (case remove r of
                         Val toRemove \<Rightarrow> removeHeaders toLowerCase responseHeaders1 toRemove
                       | _ \<Rightarrow> responseHeaders1)
                in Inr (responseHeaders2, Some responseHeaders2)))
      | _ \<Rightarrow> Inr (hdrs, None))"

text \<open>
  The key passed to \<^verbatim>\<open>removeDirect\<close>: a property access with the key \<^verbatim>\<open>undefined\<close>
  reads the property named \<^verbatim>\<open>"undefined"\<close>.
\<close>

definition keyOf :: "tamperSpec \<Rightarrow> jsstring" where
  "keyOf reqModifyOpts = (case key reqModifyOpts of None \<Rightarrow> str ''undefined'' | Some k \<Rightarrow> k)"

definition onHeadersReceived ::
  "(jsstring \<Rightarrow> jsstring) \<Rightarrow> tamperStore \<Rightarrow> details
    \<Rightarrow> tamperStore \<times> (error + header list option)" where
  "onHeadersReceived toLowerCase st d =
     (case getByRequestId st (eventRequestId d) of
        None \<Rightarrow> (st, Inr None)
      | Some reqModifyOpts \<Rightarrow>
          (case applyResponseMods toLowerCase reqModifyOpts (responseHeaders d) of
             Inl e \<Rightarrow> (st, Inl e)
           | Inr (detailsHeaders, responseHeaders') \<Rightarrow>
               (case checkIfRedirect toLowerCase (d\<lparr>responseHeaders := detailsHeaders\<rparr>) of
                  Inl e \<Rightarrow> (st, Inl e)
                | Inr None \<Rightarrow>
                    (case opts reqModifyOpts of
                       Val os \<Rightarrow>
                         if once os = Some True
                         then (removeDirect st (keyOf reqModifyOpts), Inr responseHeaders')
                         else (st, Inr responseHeaders')
                     | _ \<Rightarrow> (st, Inl TypeError))
                | Inr (Some redirectTarget) \<Rightarrow>
                    (let st1 = removeDirect st (keyOf reqModifyOpts) in
                     case set' st1 (tabId d) (frameId d) redirectTarget (Val reqModifyOpts) of
                       Inl e \<Rightarrow> (st1, Inl e)
                     | Inr st2 \<Rightarrow> (st2, Inr responseHeaders')))))"

section \<open>Notions used by the properties\<close>

text \<open>The object or array that a property holds, or a default.\<close>

definition orElse :: "'a field \<Rightarrow> 'a \<Rightarrow> 'a" where
  "orElse x d = (case x of Val v \<Rightarrow> v | _ \<Rightarrow> d)"

text \<open>What one entry \<open>(k, v)\<close> of \<^verbatim>\<open>toSet\<close> does to one header.\<close>

definition overwrite :: "(jsstring \<Rightarrow> jsstring) \<Rightarrow> jsstring \<Rightarrow> jsstring option \<Rightarrow> header \<Rightarrow> header" where
  "overwrite lc k v h = (if lc k = lc (name h) then \<lparr>name = name h, value = v\<rparr> else h)"

text \<open>
  What one entry of \<^verbatim>\<open>toSet\<close> does to a header list: it overwrites the headers of its name
  if there are any, else it appends a header.
\<close>

definition applyEntry ::
  "(jsstring \<Rightarrow> jsstring) \<Rightarrow> header list \<Rightarrow> jsstring \<times> jsstring option \<Rightarrow> header list" where
  "applyEntry lc hdrs kv =
     (if list_ex (\<lambda>h. lc (fst kv) = lc (name h)) hdrs then map (overwrite lc (fst kv) (snd kv)) hdrs
      else hdrs @ [\<lparr>name = fst kv, value = snd kv\<rparr>])"

text \<open>A mapping with a property of its own called \<^verbatim>\<open>hasOwnProperty\<close>.\<close>

definition shadowsHasOwnProperty :: "(jsstring \<times> jsstring option) list \<Rightarrow> bool" where
  "shadowsHasOwnProperty toSet = (str ''hasOwnProperty'' \<in> set (map fst toSet))"

text \<open>What the first entry of \<^verbatim>\<open>toSet\<close> with the header's name does to it.\<close>

definition overwriteBy ::
  "(jsstring \<Rightarrow> jsstring) \<Rightarrow> (jsstring \<times> jsstring option) list \<Rightarrow> header \<Rightarrow> header" where
  "overwriteBy lc toSet h =
     (case find (\<lambda>kv. lc (fst kv) = lc (name h)) toSet of
        None \<Rightarrow> h
      | Some kv \<Rightarrow> \<lparr>name = name h, value = snd kv\<rparr>)"

text \<open>The headers made from the entries of \<^verbatim>\<open>toSet\<close> whose name no header of the list has.\<close>

definition newHeaders ::
  "(jsstring \<Rightarrow> jsstring) \<Rightarrow> header list \<Rightarrow> (jsstring \<times> jsstring option) list \<Rightarrow> header list" where
  "newHeaders lc hdrs toSet =
     map (\<lambda>kv. \<lparr>name = fst kv, value = snd kv\<rparr>)
       (filter (\<lambda>kv. lc (fst kv) \<notin> lc ` name ` set hdrs) toSet)"

text \<open>A header mapping without the properties whose value is \<^verbatim>\<open>null\<close>.\<close>

definition dropNulls :: "(jsstring \<times> jsstring option) list \<Rightarrow> (jsstring \<times> jsstring option) list" where
  "dropNulls hs = filter (\<lambda>kv. map_of hs (fst kv) \<noteq> Some None) hs"

text \<open>A header mapping none of whose properties has the value \<^verbatim>\<open>null\<close>.\<close>

definition noNullHeader :: "(jsstring \<times> jsstring option) list \<Rightarrow> bool" where
  "noNullHeader hs = list_all (\<lambda>k. map_of hs k \<noteq> Some None) (map fst hs)"

text \<open>
  A normalized spec: \<^verbatim>\<open>headers\<close>, \<^verbatim>\<open>remove\<close>, \<^verbatim>\<open>response.headers\<close>, \<^verbatim>\<open>response.remove\<close> and
  \<^verbatim>\<open>opts\<close> are present and no header property has the value \<^verbatim>\<open>null\<close>.
\<close>

definition normalizedMods :: "'a headerMods_scheme \<Rightarrow> bool" where
  "normalizedMods obj =
     ((case headers obj of Val hs \<Rightarrow> noNullHeader hs | _ \<Rightarrow> False) \<and>
      (case remove obj of Val rm \<Rightarrow> True | _ \<Rightarrow> False))"

definition normalized :: "tamperSpec \<Rightarrow> bool" where
  "normalized s =
     (normalizedMods s \<and> (case response s of Val r \<Rightarrow> normalizedMods r | _ \<Rightarrow> False) \<and>
      (case opts s of Val os \<Rightarrow> True | _ \<Rightarrow> False))"

text \<open>
  A spec that is normalized up to \<^verbatim>\<open>null\<close>: \<^verbatim>\<open>response\<close> is an object, each of \<^verbatim>\<open>headers\<close>,
  \<^verbatim>\<open>remove\<close>, \<^verbatim>\<open>response.headers\<close>, \<^verbatim>\<open>response.remove\<close> and \<^verbatim>\<open>opts\<close> is present or \<^verbatim>\<open>null\<close>, and no
  header property has the value \<^verbatim>\<open>null\<close>.
\<close>

definition settledMods :: "'a headerMods_scheme \<Rightarrow> bool" where
  "settledMods obj =
     ((case headers obj of Val hs \<Rightarrow> noNullHeader hs | Null \<Rightarrow> True | Undefined \<Rightarrow> False) \<and>
      remove obj \<noteq> Undefined)"

definition settled :: "tamperSpec \<Rightarrow> bool" where
  "settled s =
     (settledMods s \<and> (case response s of Val r \<Rightarrow> settledMods r | _ \<Rightarrow> False) \<and>
      opts s \<noteq> Undefined)"

text \<open>A spec none of whose properties holds \<^verbatim>\<open>null\<close> in the place of an object or array.\<close>

definition nullFreeMods :: "'a headerMods_scheme \<Rightarrow> bool" where
  "nullFreeMods obj = (headers obj \<noteq> Null \<and> remove obj \<noteq> Null)"

definition nullFree :: "tamperSpec \<Rightarrow> bool" where
  "nullFree s =
     (nullFreeMods s \<and>
      (case response s of Val r \<Rightarrow> nullFreeMods r | Null \<Rightarrow> False | Undefined \<Rightarrow> True) \<and>
      opts s \<noteq> Null)"

text \<open>
  The inputs on which \<^verbatim>\<open>_normalizeTamperSpec\<close> raises: the argument is \<^verbatim>\<open>null\<close>, its
  \<^verbatim>\<open>response\<close> is \<^verbatim>\<open>null\<close>, or a header whose value is \<^verbatim>\<open>null\<close> has to be pushed on a \<^verbatim>\<open>remove\<close>
  that is \<^verbatim>\<open>null\<close>.
\<close>

definition pushFails :: "'a headerMods_scheme \<Rightarrow> bool" where
  "pushFails obj =
     ((case headers obj of Val hs \<Rightarrow> \<not> noNullHeader hs | _ \<Rightarrow> False) \<and> remove obj = Null)"

definition normalizeRaises :: "tamperSpec field \<Rightarrow> bool" where
  "normalizeRaises arg =
     (case arg of
        Undefined \<Rightarrow> False
      | Null \<Rightarrow> True
      | Val s \<Rightarrow>
          pushFails s \<or>
          (case response s of Val r \<Rightarrow> pushFails r | Null \<Rightarrow> True | Undefined \<Rightarrow> False))"

text \<open>
  What \<^verbatim>\<open>_normalizeTamperSpec\<close> makes of a \<^verbatim>\<open>headers\<close> property and of a \<^verbatim>\<open>remove\<close> property,
  given the names to push.
\<close>

definition headersAfter ::
  "(jsstring \<times> jsstring option) list field \<Rightarrow> (jsstring \<times> jsstring option) list field" where
  "headersAfter h = (case h of Undefined \<Rightarrow> Val [] | Null \<Rightarrow> Null | Val hs \<Rightarrow> Val (dropNulls hs))"

definition removeAfter :: "jsstring list field \<Rightarrow> jsstring list \<Rightarrow> jsstring list field" where
  "removeAfter r extra = (case r of Undefined \<Rightarrow> Val extra | Null \<Rightarrow> Null | Val rm \<Rightarrow> Val (rm @ extra))"









text \<open>
  The invariant of the store: the keys of the direct map are distinct, every spec in it is
  normalized up to \<^verbatim>\<open>null\<close> and carries the key it is stored under, and every pattern entry
  has \<^verbatim>\<open>regexes\<close> or \<^verbatim>\<open>urls\<close> and a \<^verbatim>\<open>tamper\<close> that is normalized up to \<^verbatim>\<open>null\<close>.
\<close>

definition storeInv :: "tamperStore \<Rightarrow> bool" where
  "storeInv st =
     (distinct (map fst (data st)) \<and>
      list_all (\<lambda>ks. settled (snd ks) \<and> key (snd ks) = Some (fst ks)) (data st) \<and>
      list_all (\<lambda>e. (regexes e \<noteq> Undefined \<or> urls e \<noteq> Undefined) \<and>
                     (case tamper e of Val t \<Rightarrow> settled t | _ \<Rightarrow> False))
        (patternMods st))"

text \<open>
  The store in which moreover no spec holds \<^verbatim>\<open>null\<close> in the place of an object or array:
  every spec is normalized.
\<close>

definition allNormalized :: "tamperStore \<Rightarrow> bool" where
  "allNormalized st =
     (list_all (\<lambda>ks. normalized (snd ks)) (data st) \<and>
      list_all (\<lambda>e. case tamper e of Val t \<Rightarrow> normalized t | _ \<Rightarrow> False) (patternMods st))"

text \<open>
  The operations of the store as commands. An operation that raises leaves the store as
  it was.
\<close>

datatype storeOp =
    AddPattern patternEntry
  | Set int int jsstring "tamperSpec field"
  | SetDirect jsstring "tamperSpec field"
  | RemoveDirect jsstring

fun applyOp :: "tamperStore \<Rightarrow> storeOp \<Rightarrow> tamperStore" where
  "applyOp st (AddPattern params) = (case addPattern st params of Inl e \<Rightarrow> st | Inr st' \<Rightarrow> st')"
| "applyOp st (Set t f u v) =
     (case set' st t f u v of Inl e \<Rightarrow> st | Inr st' \<Rightarrow> st')"
| "applyOp st (SetDirect k v) = (case setDirect st k v of Inl e \<Rightarrow> st | Inr st' \<Rightarrow> st')"
| "applyOp st (RemoveDirect k) = removeDirect st k"

definition runOps :: "storeOp list \<Rightarrow> tamperStore" where
  "runOps ops = foldl applyOp TamperStore ops"

text \<open>
  An operation within the model of \<^verbatim>\<open>_data\<close>: \<^verbatim>\<open>setDirect\<close> is not given the key \<^verbatim>\<open>__proto__\<close>.
\<close>

fun plainKeyOp :: "storeOp \<Rightarrow> bool" where
  "plainKeyOp (SetDirect k v) = (k \<noteq> str ''__proto__'')"
| "plainKeyOp op = True"

text \<open>
  An operation whose spec, if it has one, holds \<^verbatim>\<open>null\<close> nowhere in the place of an object or
  array.
\<close>

definition nullFreeArg :: "tamperSpec field \<Rightarrow> bool" where
  "nullFreeArg v = (case v of Val s \<Rightarrow> nullFree s | _ \<Rightarrow> True)"

fun nullFreeOp :: "storeOp \<Rightarrow> bool" where
  "nullFreeOp (AddPattern params) = nullFreeArg (tamper params)"
| "nullFreeOp (Set t f u v) = nullFreeArg v"
| "nullFreeOp (SetDirect k v) = nullFreeArg v"
| "nullFreeOp (RemoveDirect k) = True"

text \<open>The specs of the direct map that are bound to a request identifier.\<close>

definition boundTo :: "tamperStore \<Rightarrow> jsstring \<Rightarrow> tamperSpec list" where
  "boundTo st rid = filter (\<lambda>s. requestId s = Some rid) (map snd (data st))"

text \<open>\<^verbatim>\<open>opts.once\<close> is set: the property is present and true.\<close>

definition onceSet :: "tamperSpec \<Rightarrow> bool" where
  "onceSet s = (case opts s of Val os \<Rightarrow> once os = Some True | _ \<Rightarrow> False)"

text \<open>A redirect status in the sense of \<^verbatim>\<open>checkIfRedirect\<close>.\<close>

definition isRedirectStatus :: "int \<Rightarrow> bool" where
  "isRedirectStatus c = (c = 301 \<or> c = 302)"

text \<open>
  \<^verbatim>\<open>setHeaders\<close> in the words of the specification, every entry of \<^verbatim>\<open>toSet\<close> judged
  against the header list as it was given: a header whose name an entry has (ignoring
  case) gets that entry's value and keeps its name and place, and every entry whose name
  no given header has is appended as a new header, in the order of \<^verbatim>\<open>toSet\<close>.
\<close>

definition setHeadersAsSpecified ::
  "(jsstring \<Rightarrow> jsstring) \<Rightarrow> header list \<Rightarrow> (jsstring \<times> jsstring option) list \<Rightarrow> header list" where
  "setHeadersAsSpecified lc hdrs toSet = map (overwriteBy lc toSet) hdrs @ newHeaders lc hdrs toSet"

text \<open>
  A spec whose response-phase changes set or remove the \<^verbatim>\<open>Location\<close> header.
\<close>

definition touchesLocation :: "(jsstring \<Rightarrow> jsstring) \<Rightarrow> tamperSpec \<Rightarrow> bool" where
  "touchesLocation lc s =
     (case response s of
        Val r \<Rightarrow>
          list_ex (\<lambda>kv. lc (fst kv) = lc (str ''Location'')) (orElse (headers r) []) \<or>
          lc (str ''Location'') \<in> set (map lc (orElse (remove r) []))
      | _ \<Rightarrow> False)"

text \<open>
  A spec whose response-phase \<^verbatim>\<open>setHeaders\<close> raises: \<^verbatim>\<open>response.headers\<close> has a property called
  \<^verbatim>\<open>hasOwnProperty\<close>.
\<close>

definition responseModsRaise :: "tamperSpec \<Rightarrow> bool" where
  "responseModsRaise s =
     (case response s of
        Val r \<Rightarrow> shadowsHasOwnProperty (orElse (headers r) [])
      | _ \<Rightarrow> False)"

text \<open>
  Well-formed UTF-16: every code unit is below \<open>2^16\<close> and surrogates come in pairs of a
  lead and a trail surrogate. This is the text that \<^verbatim>\<open>encodeURIComponent\<close> accepts.
\<close>

fun wellFormedUtf16 :: "jsstring \<Rightarrow> bool" where
  "wellFormedUtf16 [] = True"
| "wellFormedUtf16 [c] = (c < 65536 \<and> \<not> isLeadSurrogate c \<and> \<not> isTrailSurrogate c)"
| "wellFormedUtf16 (c # d # rest) =
     (if isLeadSurrogate c then isTrailSurrogate d \<and> wellFormedUtf16 rest
      else c < 65536 \<and> \<not> isTrailSurrogate c \<and> wellFormedUtf16 (d # rest))"

text \<open>The UTF-8 octets of a well-formed UTF-16 string.\<close>

fun utf8Bytes :: "jsstring \<Rightarrow> nat list" where
  "utf8Bytes [] = []"
| "utf8Bytes [c] = utf8 c"
| "utf8Bytes (c # d # rest) =
     (if isLeadSurrogate c then utf8 ((c - 55296) * 1024 + (d - 56320) + 65536) @ utf8Bytes rest
      else utf8 c @ utf8Bytes (d # rest))"

text \<open>The sextets that \<^verbatim>\<open>btoa\<close> writes for a list of bytes, and its padding.\<close>

fun sextetsOf :: "nat list \<Rightarrow> nat list" where
  "sextetsOf [] = []"
| "sextetsOf [a] = [a div 4, (a mod 4) * 16]"
| "sextetsOf [a, b] = [a div 4, (a mod 4) * 16 + b div 16, (b mod 16) * 4]"
| "sextetsOf (a # b # c # rest) =
     [a div 4, (a mod 4) * 16 + b div 16, (b mod 16) * 4 + c div 64, c mod 64] @ sextetsOf rest"

fun paddingOf :: "nat list \<Rightarrow> jsstring" where
  "paddingOf [] = []"
| "paddingOf [a] = [61, 61]"
| "paddingOf [a, b] = [61]"
| "paddingOf (a # b # c # rest) = paddingOf rest"

section \<open>Concrete inputs\<close>

definition urlA :: jsstring where
  "urlA = str ''http://a''"

definition urlB :: jsstring where
  "urlB = str ''http://b''"

text \<open>
  A regular-expression engine for concrete inputs: the pattern \<^verbatim>\<open>(\<close> does not compile, and
  a pattern is tested on a url only by equality (as a pattern without metacharacters
  matches the url equal to it).
\<close>

definition toyEngine :: regexEngine where
  "toyEngine r = (if fst r = str ''('' then None else Some (\<lambda>u. fst r = u))"

text \<open>The empty spec after normalization.\<close>

definition plainSpec :: tamperSpec where
  "plainSpec = \<lparr>headers = Val [], remove = Val [],
                 response = Val \<lparr>headers = Val [], remove = Val []\<rparr>,
                 opts = Val \<lparr>once = None\<rparr>, requestId = None, key = None\<rparr>"

definition exampleOps :: "storeOp list" where
  "exampleOps =
     [AddPattern \<lparr>regexes = Val [(urlA, None)], urls = Undefined, tamper = Val emptySpec\<rparr>,
      Set 1 0 urlB (Val emptySpec)]"

definition rid7 :: jsstring where
  "rid7 = str ''7''"

text \<open>Events of request 7 in frame 0 of tab 1.\<close>

definition dSend :: details where
  "dSend = \<lparr>tabId = 1, frameId = 0, url = urlA, eventRequestId = rid7, statusCode = 0,
            requestHeaders = [], responseHeaders = []\<rparr>"

definition dOk :: details where
  "dOk = \<lparr>tabId = 1, frameId = 0, url = urlA, eventRequestId = rid7, statusCode = 200,
          requestHeaders = [], responseHeaders = []\<rparr>"

definition dRedirect :: details where
  "dRedirect = \<lparr>tabId = 1, frameId = 0, url = urlA, eventRequestId = rid7, statusCode = 302,
                requestHeaders = [],
                responseHeaders = [\<lparr>name = str ''Location'', value = Some urlB\<rparr>]\<rparr>"

definition dBareRedirect :: details where
  "dBareRedirect = \<lparr>tabId = 1, frameId = 0, url = urlA, eventRequestId = rid7, statusCode = 302,
                    requestHeaders = [], responseHeaders = []\<rparr>"

text \<open>The store after \<^verbatim>\<open>set(1, 0, "http://a", spec)\<close> on the empty store.\<close>

definition storeWith :: "tamperSpec \<Rightarrow> tamperStore" where
  "storeWith s = runOps [Set 1 0 urlA (Val s)]"

text \<open>Specs bound to request 7: a plain one, a one-shot one, one that sets \<^verbatim>\<open>Location\<close>.\<close>

definition boundSpec :: tamperSpec where
  "boundSpec = plainSpec\<lparr>requestId := Some rid7\<rparr>"

definition onceSpec :: tamperSpec where
  "onceSpec = plainSpec\<lparr>opts := Val \<lparr>once = Some True\<rparr>, requestId := Some rid7\<rparr>"

definition locationSpec :: tamperSpec where
  "locationSpec =
     plainSpec\<lparr>response := Val \<lparr>headers = Val [(str ''Location'', Some urlB)], remove = Val []\<rparr>,
               requestId := Some rid7\<rparr>"

text \<open>
  The store with one pattern for \<^verbatim>\<open>http://a\<close>, and that store after the request headers of
  request 7 for \<^verbatim>\<open>http://a\<close> were sent.
\<close>

definition patternStore :: tamperStore where
  "patternStore =
     runOps [AddPattern \<lparr>regexes = Undefined, urls = Val [urlA], tamper = Val emptySpec\<rparr>]"

definition sentStore :: tamperStore where
  "sentStore = fst (onBeforeSendHeaders asciiLower toyEngine patternStore dSend)"

definition keyA :: jsstring where
  "keyA = str ''1::0::http://a''"

definition keyB :: jsstring where
  "keyB = str ''1::0::http://b''"

text \<open>
  The spec \<^verbatim>\<open>{headers: {A: "?"}}\<close> and its JSON text, and \<^verbatim>\<open>JSON.stringify\<close> and \<^verbatim>\<open>JSON.parse\<close>
  on this spec, on the empty object and on \<^verbatim>\<open>null\<close>.
\<close>

definition questionSpec :: tamperSpec where
  "questionSpec = emptySpec\<lparr>headers := Val [(str ''A'', Some (str ''?''))]\<rparr>"

definition questionText :: jsstring where
  "questionText = str ''{\"headers\":{\"A\":\"?\"}}''"

definition toyStringify :: "tamperSpec \<Rightarrow> jsstring" where
  "toyStringify s = (if s = questionSpec then questionText else str ''{}'')"

definition toyParse :: "jsstring \<Rightarrow> error + tamperSpec field" where
  "toyParse t =
     (if t = questionText then Inr (Val questionSpec)
      else if t = str ''{}'' then Inr (Val emptySpec)
      else if t = str ''null'' then Inr Null
      else Inl SyntaxError)"

definition questionToken :: jsstring where
  "questionToken = str ''eyJoZWFkZXJzIjp7IkEiOiI/In19''"

text \<open>
  A request that is redirected with status 307: the store with a one-shot pattern for
  \<^verbatim>\<open>http://b\<close> and a pattern for \<^verbatim>\<open>http://a\<close>, after the request headers of request 7 were
  sent for \<^verbatim>\<open>http://a\<close>, the response 307 to \<^verbatim>\<open>http://b\<close> was received and the request headers
  of the same request were sent for \<^verbatim>\<open>http://b\<close>.
\<close>

definition d307 :: details where
  "d307 = \<lparr>tabId = 1, frameId = 0, url = urlA, eventRequestId = rid7, statusCode = 307,
           requestHeaders = [],
           responseHeaders = [\<lparr>name = str ''Location'', value = Some urlB\<rparr>]\<rparr>"

definition twoPatternStore :: tamperStore where
  "twoPatternStore =
     runOps [AddPattern \<lparr>regexes = Undefined, urls = Val [urlB],
                         tamper = Val (emptySpec\<lparr>opts := Val \<lparr>once = Some True\<rparr>\<rparr>)\<rparr>,
             AddPattern \<lparr>regexes = Undefined, urls = Val [urlA], tamper = Val emptySpec\<rparr>]"

definition chainStore :: tamperStore where
  "chainStore =
     fst (onBeforeSendHeaders asciiLower toyEngine
            (fst (onHeadersReceived asciiLower
                    (fst (onBeforeSendHeaders asciiLower toyEngine twoPatternStore dSend))
                    d307))
            (dSend\<lparr>url := urlB\<rparr>))"

section \<open>Header transform: the loops as list functions\<close>

declare setHeadersLoop.simps [simp del] removeHeadersLoop.simps [simp del]

lemma setHeadersLoop_eq:
  "i \<le> length hdrs \<Longrightarrow>
   setHeadersLoop lc k v hdrs i found =
     (take i hdrs @ map (overwrite lc k v) (drop i hdrs),
      found \<or> (\<exists>h \<in> set (drop i hdrs). lc k = lc (name h)))"
proof (induction lc k v hdrs i found rule: setHeadersLoop.induct)
  case (1 lc k v hdrs i found)
  show ?case
  proof (cases "i < length hdrs")
    case False
    with "1.prems" show ?thesis by (subst setHeadersLoop.simps) simp
  next
    case True
    then have d: "drop i hdrs = hdrs ! i # drop (Suc i) hdrs"
      by (simp add: Cons_nth_drop_Suc)
    have t: "take (Suc i) hdrs = take i hdrs @ [hdrs ! i]"
      using True by (simp add: take_Suc_conv_app_nth)
    show ?thesis
    proof (cases "lc k = lc (name (hdrs ! i))")
      case False
      with True "1.IH"(1) d t show ?thesis
        by (subst setHeadersLoop.simps) (auto simp: overwrite_def Let_def)
    next
      case eq: True
      let ?h' = "hdrs[i := \<lparr>name = name (hdrs ! i), value = v\<rparr>]"
      have "setHeadersLoop lc k v ?h' (i + 1) True =
         (take (i + 1) ?h' @ map (overwrite lc k v) (drop (i + 1) ?h'),
          True \<or> (\<exists>h \<in> set (drop (i + 1) ?h'). lc k = lc (name h)))"
        using True eq by (intro "1.IH"(2)) auto
      moreover have "take (i + 1) ?h' = take i hdrs @ [\<lparr>name = name (hdrs ! i), value = v\<rparr>]"
        using True by (simp add: take_Suc_conv_app_nth)
      moreover have "drop (i + 1) ?h' = drop (Suc i) hdrs" by simp
      ultimately show ?thesis
        using True eq d by (subst setHeadersLoop.simps) (auto simp: overwrite_def Let_def)
    qed
  qed
qed

lemma removeHeadersLoop_eq:
  "i \<le> length hdrs \<Longrightarrow>
   removeHeadersLoop lc rm hdrs i =
     take i hdrs @ filter (\<lambda>h. lc (name h) \<notin> set rm) (drop i hdrs)"
proof (induction lc rm hdrs i rule: removeHeadersLoop.induct)
  case (1 lc rm hdrs i)
  show ?case
  proof (cases "i < length hdrs")
    case False
    with "1.prems" show ?thesis by (subst removeHeadersLoop.simps) simp
  next
    case True
    then have d: "drop i hdrs = hdrs ! i # drop (Suc i) hdrs"
      by (simp add: Cons_nth_drop_Suc)
    have t: "take (Suc i) hdrs = take i hdrs @ [hdrs ! i]"
      using True by (simp add: take_Suc_conv_app_nth)
    show ?thesis
    proof (cases "lc (name (hdrs ! i)) \<in> set rm")
      case False
      with True "1.IH"(1) d t show ?thesis
        by (subst removeHeadersLoop.simps) auto
    next
      case mem: True
      let ?h' = "take i hdrs @ drop (i + 1) hdrs"
      have "removeHeadersLoop lc rm ?h' i =
         take i ?h' @ filter (\<lambda>h. lc (name h) \<notin> set rm) (drop i ?h')"
        using True mem by (intro "1.IH"(2)) auto
      moreover have "take i ?h' = take i hdrs" using True by simp
      moreover have "drop i ?h' = drop (Suc i) hdrs" using True by simp
      ultimately show ?thesis
        using True mem d by (subst removeHeadersLoop.simps) auto
    qed
  qed
qed

lemma applyEntry_eq:
  "applyEntry lc hdrs (k, v) =
     (if \<exists>h \<in> set hdrs. lc k = lc (name h) then map (overwrite lc k v) hdrs
      else hdrs @ [\<lparr>name = k, value = v\<rparr>])"
  by (simp add: applyEntry_def list_ex_iff)

lemma setHeadersLoop_applyEntry:
  "(case setHeadersLoop lc k v hdrs 0 False of
      (hdrs', found) \<Rightarrow> if found then f hdrs' else f (hdrs' @ [\<lparr>name = k, value = v\<rparr>])) =
   f (applyEntry lc hdrs (k, v))"
proof -
  have m: "map (overwrite lc k v) hdrs = hdrs" if "\<not> (\<exists>h \<in> set hdrs. lc k = lc (name h))"
    using that by (intro map_idI) (auto simp: overwrite_def)
  show ?thesis
    using m by (simp add: setHeadersLoop_eq[of 0 hdrs lc k v False] applyEntry_eq)
qed

lemma hasOwnProperty_plain:
  "\<not> shadowsHasOwnProperty toSet \<Longrightarrow> hasOwnProperty toSet k = Inr (k \<in> set (map fst toSet))"
  by (auto simp: shadowsHasOwnProperty_def hasOwnProperty_def map_of_eq_None_iff
      split: option.splits)

lemma hasOwnProperty_shadowed:
  "shadowsHasOwnProperty toSet \<Longrightarrow> hasOwnProperty toSet k = Inl TypeError"
  by (auto simp: shadowsHasOwnProperty_def hasOwnProperty_def map_of_eq_None_iff
      split: option.splits)

lemma setHeadersFrom_plain:
  "\<not> shadowsHasOwnProperty toSet \<Longrightarrow> set rest \<subseteq> set toSet \<Longrightarrow>
   setHeadersFrom lc toSet hdrs rest = Inr (foldl (applyEntry lc) hdrs rest)"
proof (induction rest arbitrary: hdrs)
  case Nil
  then show ?case by simp
next
  case (Cons kv rest)
  obtain k v where kv: "kv = (k, v)" by (cases kv)
  from Cons.prems kv have own: "k \<in> set (map fst toSet)" by force
  from Cons.prems have sub: "set rest \<subseteq> set toSet" by simp
  have "setHeadersFrom lc toSet hdrs ((k, v) # rest) =
        setHeadersFrom lc toSet (applyEntry lc hdrs (k, v)) rest"
    using own setHeadersLoop_applyEntry[where f = "\<lambda>h. setHeadersFrom lc toSet h rest" and lc = lc
        and k = k and v = v and hdrs = hdrs]
    by (simp add: hasOwnProperty_plain[OF Cons.prems(1)])
  then show ?case using Cons.IH[OF Cons.prems(1) sub] by (simp add: kv)
qed

lemma setHeaders_eq:
  "setHeaders lc hdrs toSet =
     (if shadowsHasOwnProperty toSet then Inl TypeError
      else Inr (foldl (applyEntry lc) hdrs toSet))"
proof (cases "shadowsHasOwnProperty toSet")
  case False
  then show ?thesis by (simp add: setHeaders_def setHeadersFrom_plain)
next
  case True
  then obtain kv rest where "toSet = kv # rest"
    by (cases toSet) (auto simp: shadowsHasOwnProperty_def)
  then have "setHeadersFrom lc toSet hdrs toSet = Inl TypeError"
    using hasOwnProperty_shadowed[OF True] by (cases kv) simp
  with True show ?thesis by (simp add: setHeaders_def)
qed

lemma name_overwrite: "name (overwrite lc k v h) = name h"
  by (simp add: overwrite_def)

lemma foldl_applyEntry_closed:
  "distinct (map (\<lambda>kv. lc (fst kv)) toSet) \<Longrightarrow>
   foldl (applyEntry lc) hdrs toSet = map (overwriteBy lc toSet) hdrs @ newHeaders lc hdrs toSet"
proof (induction toSet arbitrary: hdrs)
  case Nil
  then show ?case by (simp add: overwriteBy_def newHeaders_def)
next
  case (Cons kv toSet)
  obtain k v where kv: "kv = (k, v)" by (cases kv)
  from Cons.prems kv have fresh: "\<forall>kv' \<in> set toSet. lc (fst kv') \<noteq> lc k"
    and dist: "distinct (map (\<lambda>kv. lc (fst kv)) toSet)" by (auto simp: image_iff)
  have nofind: "find (\<lambda>kv'. lc (fst kv') = lc k) toSet = None"
    using fresh by (auto simp: find_None_iff)
  show ?case
  proof (cases "\<exists>h \<in> set hdrs. lc k = lc (name h)")
    case True
    have a: "map (overwriteBy lc toSet) (map (overwrite lc k v) hdrs) =
             map (overwriteBy lc (kv # toSet)) hdrs"
      using nofind by (auto simp: overwriteBy_def overwrite_def kv)
    have b: "newHeaders lc (map (overwrite lc k v) hdrs) toSet = newHeaders lc hdrs (kv # toSet)"
    proof -
      have "name ` set (map (overwrite lc k v) hdrs) = name ` set hdrs"
        by (auto simp: name_overwrite image_iff)
      moreover have "lc k \<in> lc ` name ` set hdrs" using True by auto
      ultimately show ?thesis by (simp add: newHeaders_def kv)
    qed
    show ?thesis
      using True Cons.IH[OF dist, of "map (overwrite lc k v) hdrs"] a b
      by (simp add: kv applyEntry_eq)
  next
    case False
    let ?new = "\<lparr>name = k, value = v\<rparr>"
    have a: "map (overwriteBy lc toSet) (hdrs @ [?new]) =
             map (overwriteBy lc (kv # toSet)) hdrs @ [?new]"
      using nofind False by (auto simp: overwriteBy_def kv)
    have b: "newHeaders lc (hdrs @ [?new]) toSet = newHeaders lc hdrs toSet"
      unfolding newHeaders_def
      using fresh by (intro arg_cong[where f = "map _"] filter_cong) auto
    have c: "newHeaders lc hdrs (kv # toSet) = ?new # newHeaders lc hdrs toSet"
      using False by (auto simp: newHeaders_def kv)
    show ?thesis
      using False Cons.IH[OF dist, of "hdrs @ [?new]"] a b c
      by (simp add: kv applyEntry_eq)
  qed
qed
section \<open>Spec normalizer: closed form\<close>

lemma orElse_simps [simp]:
  "orElse (Val v) d = v" "orElse Undefined d = d" "orElse Null d = d"
  by (simp_all add: orElse_def)

lemma noNullHeader_iff: "noNullHeader hs \<longleftrightarrow> (\<forall>k. map_of hs k \<noteq> Some None)"
proof
  assume a: "noNullHeader hs"
  show "\<forall>k. map_of hs k \<noteq> Some None"
  proof
    fix k
    show "map_of hs k \<noteq> Some None"
    proof
      assume m: "map_of hs k = Some None"
      then have "k \<in> set (map fst hs)" by (metis map_of_eq_None_iff option.distinct(1) set_map)
      with a m show False by (auto simp: noNullHeader_def list_all_iff)
    qed
  qed
next
  assume "\<forall>k. map_of hs k \<noteq> Some None"
  then show "noNullHeader hs" by (simp add: noNullHeader_def list_all_iff)
qed

lemma map_of_filter_key:
  "map_of (filter (\<lambda>kv. P (fst kv)) hs) k = (if P k then map_of hs k else None)"
  by (induction hs) auto

lemma map_of_dropNulls:
  "map_of (dropNulls hs) k = (if map_of hs k = Some None then None else map_of hs k)"
  unfolding dropNulls_def
  using map_of_filter_key[where P = "\<lambda>k. map_of hs k \<noteq> Some None" and hs = hs and k = k] by simp

lemma noNullHeader_dropNulls: "noNullHeader (dropNulls hs)"
  by (simp add: noNullHeader_iff map_of_dropNulls)

lemma delete_as_filter: "AList.delete n hs = filter (\<lambda>kv. fst kv \<noteq> n) hs"
  by (induction hs) auto

lemma dropNulls_id: "noNullHeader hs \<Longrightarrow> dropNulls hs = hs"
  by (simp add: dropNulls_def noNullHeader_iff)

lemma doNormalizeLoop_spec:
  "headers obj = Val hs \<Longrightarrow> remove obj = Val rm \<Longrightarrow>
   \<exists>extra. doNormalizeLoop ns obj =
       Inr (obj\<lparr>headers := Val (filter (\<lambda>kv. \<not> (fst kv \<in> set ns \<and> map_of hs (fst kv) = Some None)) hs),
                remove := Val (rm @ extra)\<rparr>) \<and>
     set extra = {n \<in> set ns. map_of hs n = Some None}"
proof (induction ns arbitrary: obj hs rm)
  case Nil
  then show ?case by simp
next
  case (Cons n ns)
  show ?case
  proof (cases "map_of hs n = Some None")
    case False
    from Cons.IH[OF Cons.prems] obtain extra where
      e: "doNormalizeLoop ns obj =
            Inr (obj\<lparr>headers := Val (filter (\<lambda>kv. \<not> (fst kv \<in> set ns \<and> map_of hs (fst kv) = Some None)) hs),
                     remove := Val (rm @ extra)\<rparr>)"
      and s: "set extra = {n \<in> set ns. map_of hs n = Some None}" by blast
    have f: "filter (\<lambda>kv. \<not> (fst kv \<in> set (n # ns) \<and> map_of hs (fst kv) = Some None)) hs =
             filter (\<lambda>kv. \<not> (fst kv \<in> set ns \<and> map_of hs (fst kv) = Some None)) hs"
      using False by (intro filter_cong) auto
    have "set extra = {m \<in> set (n # ns). map_of hs m = Some None}"
      using s False by auto
    with e f False Cons.prems show ?thesis by auto
  next
    case True
    let ?hs1 = "AList.delete n hs"
    let ?obj1 = "obj\<lparr>headers := Val ?hs1, remove := Val (rm @ [n])\<rparr>"
    have m1: "map_of ?hs1 k = (if k = n then None else map_of hs k)" for k
      using map_of_filter_key[where P = "\<lambda>k. k \<noteq> n" and hs = hs and k = k]
      by (simp add: delete_as_filter)
    have "headers ?obj1 = Val ?hs1" "remove ?obj1 = Val (rm @ [n])" by simp_all
    from Cons.IH[OF this] obtain extra where
      e: "doNormalizeLoop ns ?obj1 =
            Inr (?obj1\<lparr>headers := Val (filter (\<lambda>kv. \<not> (fst kv \<in> set ns \<and> map_of ?hs1 (fst kv) = Some None)) ?hs1),
                     remove := Val ((rm @ [n]) @ extra)\<rparr>)"
      and s: "set extra = {m \<in> set ns. map_of ?hs1 m = Some None}" by blast
    have f: "filter (\<lambda>kv. \<not> (fst kv \<in> set ns \<and> map_of ?hs1 (fst kv) = Some None)) ?hs1 =
             filter (\<lambda>kv. \<not> (fst kv \<in> set (n # ns) \<and> map_of hs (fst kv) = Some None)) hs"
      unfolding delete_as_filter filter_filter
      using True by (intro filter_cong) (auto simp: m1[unfolded delete_as_filter])
    have s': "set (n # extra) = {m \<in> set (n # ns). map_of hs m = Some None}"
      using s True by (auto simp: m1)
    have "doNormalizeLoop (n # ns) obj = doNormalizeLoop ns ?obj1"
      using True Cons.prems by simp
    with e f have "doNormalizeLoop (n # ns) obj =
       Inr (obj\<lparr>headers := Val (filter (\<lambda>kv. \<not> (fst kv \<in> set (n # ns) \<and> map_of hs (fst kv) = Some None)) hs),
                remove := Val (rm @ (n # extra))\<rparr>)" by simp
    with s' show ?thesis by blast
  qed
qed

lemma doNormalize_spec:
  assumes "headers obj = Val hs" "remove obj = Val rm"
  shows "\<exists>extra. doNormalize obj =
       Inr (obj\<lparr>headers := Val (dropNulls hs), remove := Val (rm @ extra)\<rparr>) \<and>
     set extra = {n. map_of hs n = Some None}"
proof -
  from doNormalizeLoop_spec[OF assms, of "map fst hs"] obtain extra where
    e: "doNormalizeLoop (map fst hs) obj =
       Inr (obj\<lparr>headers := Val (filter (\<lambda>kv. \<not> (fst kv \<in> set (map fst hs) \<and> map_of hs (fst kv) = Some None)) hs),
                remove := Val (rm @ extra)\<rparr>)"
    and s: "set extra = {n \<in> set (map fst hs). map_of hs n = Some None}" by blast
  have f: "filter (\<lambda>kv. \<not> (fst kv \<in> set (map fst hs) \<and> map_of hs (fst kv) = Some None)) hs = dropNulls hs"
    unfolding dropNulls_def by (intro filter_cong) auto
  have "{n \<in> set (map fst hs). map_of hs n = Some None} = {n. map_of hs n = Some None}"
  proof -
    have "n \<in> set (map fst hs)" if "map_of hs n = Some None" for n
      using that by (metis map_of_eq_None_iff option.distinct(1) set_map)
    then show ?thesis by blast
  qed
  with e f s assms show ?thesis by (auto simp: doNormalize_def)
qed

lemma doNormalizeLoop_noop:
  "headers obj = Val hs \<Longrightarrow> noNullHeader hs \<Longrightarrow> doNormalizeLoop ns obj = Inr obj"
  by (induction ns) (auto simp: noNullHeader_iff)

lemma doNormalize_noop:
  "(case headers obj of Val hs \<Rightarrow> noNullHeader hs | _ \<Rightarrow> True) \<Longrightarrow> doNormalize obj = Inr obj"
  by (auto simp: doNormalize_def doNormalizeLoop_noop split: field.splits)

lemma doNormalizeLoop_fails:
  "headers obj = Val hs \<Longrightarrow> remove obj = Null \<Longrightarrow> \<exists>n \<in> set ns. map_of hs n = Some None \<Longrightarrow>
   doNormalizeLoop ns obj = Inl TypeError"
  by (induction ns) auto

lemma doNormalize_fails:
  "pushFails obj \<Longrightarrow> doNormalize obj = Inl TypeError"
proof -
  assume a: "pushFails obj"
  then obtain hs where hs: "headers obj = Val hs" "\<not> noNullHeader hs" "remove obj = Null"
    by (auto simp: pushFails_def split: field.splits)
  from hs(2) have "\<exists>n \<in> set (map fst hs). map_of hs n = Some None"
    by (auto simp: noNullHeader_def list_all_iff)
  with hs show ?thesis by (simp add: doNormalize_def doNormalizeLoop_fails)
qed

lemma removeAfter_nil: "removeAfter r [] = defaultTo [] r"
  by (simp add: removeAfter_def defaultTo_def split: field.splits)

lemma doNormalize_after_defaults:
  assumes "headers obj = defaultTo [] h" "remove obj = defaultTo [] r"
    "\<not> ((case h of Val hs \<Rightarrow> \<not> noNullHeader hs | _ \<Rightarrow> False) \<and> r = Null)"
  shows "\<exists>extra. doNormalize obj =
       Inr (obj\<lparr>headers := headersAfter h, remove := removeAfter r extra\<rparr>) \<and>
     set extra = {n. map_of (orElse h []) n = Some None}"
proof (cases h)
  case Undefined
  then have "doNormalize obj = Inr obj" using assms(1)
    by (simp add: doNormalize_def defaultTo_def)
  moreover have "obj\<lparr>headers := headersAfter h, remove := removeAfter r []\<rparr> = obj"
    using assms(1,2) Undefined by (simp add: headersAfter_def removeAfter_nil defaultTo_def)
  ultimately show ?thesis using Undefined by (intro exI[of _ "[]"]) (simp add: orElse_def)
next
  case Null
  then have "doNormalize obj = Inr obj" using assms(1)
    by (simp add: doNormalize_def defaultTo_def)
  moreover have "obj\<lparr>headers := headersAfter h, remove := removeAfter r []\<rparr> = obj"
    using assms(1,2) Null by (simp add: headersAfter_def removeAfter_nil defaultTo_def)
  ultimately show ?thesis using Null by (intro exI[of _ "[]"]) (simp add: orElse_def)
next
  case (Val hs)
  then have h: "headers obj = Val hs" using assms(1) by (simp add: defaultTo_def)
  show ?thesis
  proof (cases "r = Null")
    case True
    with assms(3) Val have nn: "noNullHeader hs" by simp
    then have "doNormalize obj = Inr obj" using h by (simp add: doNormalize_noop)
    moreover have "obj\<lparr>headers := headersAfter h, remove := removeAfter r []\<rparr> = obj"
      using assms(2) h Val nn by (simp add: headersAfter_def removeAfter_nil dropNulls_id)
    moreover have "{n. map_of hs n = Some None} = {}" using nn by (simp add: noNullHeader_iff)
    ultimately show ?thesis using Val by (intro exI[of _ "[]"]) (simp add: orElse_def)
  next
    case False
    then have rm: "remove obj = Val (orElse r [])" "removeAfter r extra = Val (orElse r [] @ extra)" for extra
      using assms(2) by (auto simp: defaultTo_def orElse_def removeAfter_def split: field.splits)
    from doNormalize_spec[OF h rm(1)] show ?thesis
      using Val by (simp add: rm(2) headersAfter_def orElse_def)
  qed
qed

lemma normalizeTamperSpec_unfold:
  fixes arg :: "tamperSpec field"
  defines "s0 \<equiv> orElse arg emptySpec"
  defines "r0 \<equiv> orElse (response s0) emptyMods"
  defines "r1 \<equiv> r0\<lparr>headers := defaultTo [] (headers r0), remove := defaultTo [] (remove r0)\<rparr>"
  defines "s2 \<equiv> s0\<lparr>headers := defaultTo [] (headers s0), remove := defaultTo [] (remove s0),
      opts := defaultTo \<lparr>once = None\<rparr> (opts s0), response := Val r1\<rparr>"
  assumes "arg \<noteq> Null" "response s0 \<noteq> Null"
  shows "normalizeTamperSpec arg =
      (case doNormalize s2 of
         Inl e \<Rightarrow> Inl e
       | Inr s3 \<Rightarrow>
           (case response s3 of
              Val r2 \<Rightarrow> (case doNormalize r2 of Inl e \<Rightarrow> Inl e | Inr r3 \<Rightarrow> Inr (s3\<lparr>response := Val r3\<rparr>))
            | _ \<Rightarrow> Inl TypeError))"
proof -
  have arg0: "(case arg of Val s \<Rightarrow> s | _ \<Rightarrow> emptySpec) = s0"
    by (simp add: s0_def orElse_def)
  have resp: "defaultTo emptyMods (response s0) = Val r0"
    using assms(6) by (simp add: defaultTo_def r0_def orElse_def split: field.splits)
  have "normalizeTamperSpec arg =
     (let tamperSpec0 = s0;
          tamperSpec1 = tamperSpec0
            \<lparr>headers := defaultTo [] (headers tamperSpec0),
             remove := defaultTo [] (remove tamperSpec0),
             response := defaultTo emptyMods (response tamperSpec0),
             opts := defaultTo \<lparr>once = None\<rparr> (opts tamperSpec0)\<rparr>
      in case response tamperSpec1 of
           Val r0 \<Rightarrow>
             (let r1 = r0\<lparr>headers := defaultTo [] (headers r0),
                          remove := defaultTo [] (remove r0)\<rparr>;
                  tamperSpec2 = tamperSpec1\<lparr>response := Val r1\<rparr>
              in case doNormalize tamperSpec2 of
                   Inl e \<Rightarrow> Inl e
                 | Inr tamperSpec3 \<Rightarrow>
                     (case response tamperSpec3 of
                        Val r2 \<Rightarrow>
                          (case doNormalize r2 of
                             Inl e \<Rightarrow> Inl e
                           | Inr r3 \<Rightarrow> Inr (tamperSpec3\<lparr>response := Val r3\<rparr>))
                      | _ \<Rightarrow> Inl TypeError))
         | _ \<Rightarrow> Inl TypeError)"
    unfolding normalizeTamperSpec_def arg0 using assms(5) by (cases arg) simp_all
  then show ?thesis by (simp add: Let_def resp s2_def r1_def)
qed

lemma normalizeTamperSpec_raises:
  assumes "normalizeRaises arg"
  shows "normalizeTamperSpec arg = Inl TypeError"
proof (cases arg)
  case Undefined
  with assms show ?thesis by (simp add: normalizeRaises_def)
next
  case Null
  then show ?thesis by (simp add: normalizeTamperSpec_def)
next
  case (Val s)
  show ?thesis
  proof (cases "response s = Null")
    case True
    then show ?thesis using Val by (simp add: normalizeTamperSpec_def Let_def defaultTo_def)
  next
    case False
    define r0 where "r0 = orElse (response s) emptyMods"
    define r1 where "r1 = r0\<lparr>headers := defaultTo [] (headers r0), remove := defaultTo [] (remove r0)\<rparr>"
    define s2 where "s2 = s\<lparr>headers := defaultTo [] (headers s), remove := defaultTo [] (remove s),
        opts := defaultTo \<lparr>once = None\<rparr> (opts s), response := Val r1\<rparr>"
    have unf: "normalizeTamperSpec arg =
        (case doNormalize s2 of
           Inl e \<Rightarrow> Inl e
         | Inr s3 \<Rightarrow>
             (case response s3 of
                Val r2 \<Rightarrow> (case doNormalize r2 of Inl e \<Rightarrow> Inl e | Inr r3 \<Rightarrow> Inr (s3\<lparr>response := Val r3\<rparr>))
              | _ \<Rightarrow> Inl TypeError))"
      using normalizeTamperSpec_unfold[of arg] Val False
      by (simp add: s2_def r1_def r0_def)
    have pf: "pushFails x \<Longrightarrow>
        pushFails (x\<lparr>headers := defaultTo [] (headers x), remove := defaultTo [] (remove x)\<rparr>)"
      for x :: "'a headerMods_scheme"
      by (auto simp: pushFails_def defaultTo_def split: field.splits)
    show ?thesis
    proof (cases "pushFails s")
      case True
      then have "pushFails s2"
        by (auto simp: s2_def pushFails_def defaultTo_def split: field.splits)
      then show ?thesis by (simp add: unf doNormalize_fails)
    next
      case nf: False
      with assms Val False have "pushFails r0"
        by (auto simp: normalizeRaises_def r0_def orElse_def split: field.splits)
      then have f1: "doNormalize r1 = Inl TypeError"
        unfolding r1_def by (intro doNormalize_fails pf)
      have "\<exists>extra. doNormalize s2 =
          Inr (s2\<lparr>headers := headersAfter (headers s), remove := removeAfter (remove s) extra\<rparr>)"
        using doNormalize_after_defaults[of s2 "headers s" "remove s"] nf
        by (auto simp: s2_def pushFails_def)
      then obtain extra where "doNormalize s2 =
          Inr (s2\<lparr>headers := headersAfter (headers s), remove := removeAfter (remove s) extra\<rparr>)"
        by blast
      then show ?thesis using f1 by (simp add: unf s2_def)
    qed
  qed
qed

lemma normalizeTamperSpec_returns:
  fixes arg :: "tamperSpec field"
  defines "s0 \<equiv> orElse arg emptySpec"
  defines "r0 \<equiv> orElse (response s0) emptyMods"
  assumes "\<not> normalizeRaises arg"
  shows "\<exists>ex rex. normalizeTamperSpec arg =
      Inr (s0\<lparr>headers := headersAfter (headers s0),
               remove := removeAfter (remove s0) ex,
               response := Val \<lparr>headers = headersAfter (headers r0),
                                remove = removeAfter (remove r0) rex\<rparr>,
               opts := defaultTo \<lparr>once = None\<rparr> (opts s0)\<rparr>) \<and>
     set ex = {n. map_of (orElse (headers s0) []) n = Some None} \<and>
     set rex = {n. map_of (orElse (headers r0) []) n = Some None}"
proof -
  from assms(3) have notnull: "arg \<noteq> Null" by (auto simp: normalizeRaises_def)
  have raises0: "\<not> pushFails s0 \<and> response s0 \<noteq> Null \<and> \<not> pushFails r0"
    using assms(3)
    by (cases arg)
       (auto simp: normalizeRaises_def s0_def r0_def orElse_def emptySpec_def emptyMods_def
          pushFails_def split: field.splits)
  define r1 where "r1 = r0\<lparr>headers := defaultTo [] (headers r0), remove := defaultTo [] (remove r0)\<rparr>"
  define s2 where "s2 = s0\<lparr>headers := defaultTo [] (headers s0), remove := defaultTo [] (remove s0),
      opts := defaultTo \<lparr>once = None\<rparr> (opts s0), response := Val r1\<rparr>"
  have unf: "normalizeTamperSpec arg =
      (case doNormalize s2 of
         Inl e \<Rightarrow> Inl e
       | Inr s3 \<Rightarrow>
           (case response s3 of
              Val r2 \<Rightarrow> (case doNormalize r2 of Inl e \<Rightarrow> Inl e | Inr r3 \<Rightarrow> Inr (s3\<lparr>response := Val r3\<rparr>))
            | _ \<Rightarrow> Inl TypeError))"
    using normalizeTamperSpec_unfold[of arg] notnull raises0
    by (simp add: s2_def r1_def r0_def s0_def)
  obtain ex where ex: "doNormalize s2 =
      Inr (s2\<lparr>headers := headersAfter (headers s0), remove := removeAfter (remove s0) ex\<rparr>)"
      "set ex = {n. map_of (orElse (headers s0) []) n = Some None}"
    using doNormalize_after_defaults[of s2 "headers s0" "remove s0"] raises0
    by (auto simp: s2_def pushFails_def)
  obtain rex where rex: "doNormalize r1 =
      Inr (r1\<lparr>headers := headersAfter (headers r0), remove := removeAfter (remove r0) rex\<rparr>)"
      "set rex = {n. map_of (orElse (headers r0) []) n = Some None}"
    using doNormalize_after_defaults[of r1 "headers r0" "remove r0"] raises0
    by (auto simp: r1_def pushFails_def)
  have "normalizeTamperSpec arg =
      Inr (s0\<lparr>headers := headersAfter (headers s0),
               remove := removeAfter (remove s0) ex,
               response := Val \<lparr>headers = headersAfter (headers r0),
                                remove = removeAfter (remove r0) rex\<rparr>,
               opts := defaultTo \<lparr>once = None\<rparr> (opts s0)\<rparr>)"
    using ex(1) rex(1) by (simp add: unf s2_def r1_def)
  with ex(2) rex(2) show ?thesis by blast
qed

lemma normalizeTamperSpec_Inr:
  assumes "normalizeTamperSpec arg = Inr n"
  shows "\<not> normalizeRaises arg"
  using assms normalizeTamperSpec_raises[of arg] by auto

lemma noNullHeader_Nil: "noNullHeader []"
  by (simp add: noNullHeader_def)

lemma settledMods_after:
  "headers obj = headersAfter h \<Longrightarrow> remove obj = removeAfter r extra \<Longrightarrow> settledMods obj"
  by (simp add: settledMods_def headersAfter_def removeAfter_def noNullHeader_dropNulls
      noNullHeader_Nil split: field.splits)

lemma normalizeTamperSpec_settled:
  assumes "normalizeTamperSpec arg = Inr n"
  shows "settled n \<and> requestId n = requestId (orElse arg emptySpec) \<and>
         key n = key (orElse arg emptySpec)"
proof -
  from normalizeTamperSpec_returns[OF normalizeTamperSpec_Inr[OF assms]] assms
  obtain ex rex where
    "n = (orElse arg emptySpec)\<lparr>headers := headersAfter (headers (orElse arg emptySpec)),
               remove := removeAfter (remove (orElse arg emptySpec)) ex,
               response := Val \<lparr>headers = headersAfter (headers (orElse (response (orElse arg emptySpec)) emptyMods)),
                                remove = removeAfter (remove (orElse (response (orElse arg emptySpec)) emptyMods)) rex\<rparr>,
               opts := defaultTo \<lparr>once = None\<rparr> (opts (orElse arg emptySpec))\<rparr>"
    by auto
  then have "settledMods n" "\<exists>r. response n = Val r \<and> settledMods r" "opts n \<noteq> Undefined"
    "requestId n = requestId (orElse arg emptySpec)" "key n = key (orElse arg emptySpec)"
    by (auto intro: settledMods_after simp: defaultTo_def split: field.splits)
  then show ?thesis by (auto simp: settled_def)
qed

lemma normalizeTamperSpec_of_settled:
  assumes "settled n"
  shows "normalizeTamperSpec (Val n) = Inr n"
proof -
  from assms obtain r where r: "response n = Val r" "settledMods r" "settledMods n"
    "opts n \<noteq> Undefined"
    by (auto simp: settled_def split: field.splits)
  have nn: "map_of (orElse (headers x) []) k \<noteq> Some None" if "settledMods x"
    for x :: "'a headerMods_scheme" and k
    using that by (auto simp: settledMods_def noNullHeader_iff split: field.splits)
  have h: "headersAfter (headers x) = headers x" "removeAfter (remove x) [] = remove x"
    if "settledMods x" for x :: "'a headerMods_scheme"
    using that
    by (auto simp: settledMods_def headersAfter_def removeAfter_def dropNulls_id split: field.splits)
  have nr: "\<not> normalizeRaises (Val n)"
    using r by (auto simp: normalizeRaises_def pushFails_def settledMods_def split: field.splits)
  from normalizeTamperSpec_returns[OF nr] obtain ex rex where
    e: "normalizeTamperSpec (Val n) =
      Inr (n\<lparr>headers := headersAfter (headers n), remove := removeAfter (remove n) ex,
               response := Val \<lparr>headers = headersAfter (headers r), remove = removeAfter (remove r) rex\<rparr>,
               opts := defaultTo \<lparr>once = None\<rparr> (opts n)\<rparr>)"
    and "set ex = {k. map_of (orElse (headers n) []) k = Some None}"
    and "set rex = {k. map_of (orElse (headers r) []) k = Some None}"
    by (auto simp: r(1))
  then have "ex = []" "rex = []" using nn[OF r(3)] nn[OF r(2)] by auto
  moreover have "defaultTo \<lparr>once = None\<rparr> (opts n) = opts n"
    using r(4) by (simp add: defaultTo_def split: field.splits)
  ultimately show ?thesis using e h[OF r(2)] h[OF r(3)] r(1) by simp
qed

lemma normalized_iff: "normalized s \<longleftrightarrow> settled s \<and> nullFree s"
  by (auto simp: normalized_def normalizedMods_def settled_def settledMods_def nullFree_def
      nullFreeMods_def split: field.splits)

lemma nullFreeArg_returns:
  assumes "nullFreeArg arg" "arg \<noteq> Null"
  shows "\<not> normalizeRaises arg"
  using assms
  by (auto simp: nullFreeArg_def normalizeRaises_def nullFree_def nullFreeMods_def pushFails_def
      split: field.splits)

lemma normalizeTamperSpec_nullFree:
  assumes "normalizeTamperSpec arg = Inr n" "nullFreeArg arg"
  shows "normalized n"
proof -
  from normalizeTamperSpec_settled[OF assms(1)] have s: "settled n" by simp
  from normalizeTamperSpec_returns[OF normalizeTamperSpec_Inr[OF assms(1)]] assms(1)
  obtain ex rex where
    n: "n = (orElse arg emptySpec)\<lparr>headers := headersAfter (headers (orElse arg emptySpec)),
               remove := removeAfter (remove (orElse arg emptySpec)) ex,
               response := Val \<lparr>headers = headersAfter (headers (orElse (response (orElse arg emptySpec)) emptyMods)),
                                remove = removeAfter (remove (orElse (response (orElse arg emptySpec)) emptyMods)) rex\<rparr>,
               opts := defaultTo \<lparr>once = None\<rparr> (opts (orElse arg emptySpec))\<rparr>"
    by auto
  have "nullFree (orElse arg emptySpec)"
    using assms(2)
    by (cases arg) (simp_all add: nullFreeArg_def nullFree_def nullFreeMods_def emptySpec_def)
  then have "nullFree n"
    by (subst n)
       (auto simp: nullFree_def nullFreeMods_def headersAfter_def removeAfter_def defaultTo_def
          emptyMods_def split: field.splits)
  with s show ?thesis by (simp add: normalized_iff)
qed
section \<open>Tamper store: property order, resolution and invariant\<close>

declare natDigits.simps [simp del]

lemma set_insertIndex: "set (insertIndex k v xs) = insert (k, v) (set xs)"
  by (induction xs) auto

lemma map_of_insertIndex:
  "k \<notin> set (map fst xs) \<Longrightarrow> map_of (insertIndex k v xs) = (map_of xs)(k \<mapsto> v)"
  by (induction xs) (auto simp: fun_upd_twist)

lemma distinct_insertIndex:
  "k \<notin> set (map fst xs) \<Longrightarrow> distinct (map fst xs) \<Longrightarrow> distinct (map fst (insertIndex k v xs))"
  by (induction xs) (auto simp: set_insertIndex image_iff)

lemma assignProperty_plain: "\<not> isArrayIndex k \<Longrightarrow> assignProperty k v xs = AList.update k v xs"
  by (simp add: assignProperty_def)

lemma isArrayIndex_makeKey: "\<not> isArrayIndex (makeKey t f u)"
  by (simp add: isArrayIndex_def makeKey_def str_def)

lemma map_of_assignProperty: "map_of (assignProperty k v xs) = (map_of xs)(k \<mapsto> v)"
  by (simp add: assignProperty_def map_of_insertIndex update_conv')

lemma distinct_assignProperty:
  "distinct (map fst xs) \<Longrightarrow> distinct (map fst (assignProperty k v xs))"
  by (simp add: assignProperty_def distinct_insertIndex distinct_update)

lemma list_all_update:
  "list_all P xs \<Longrightarrow> P (k, v) \<Longrightarrow> list_all P (AList.update k v xs)"
  by (induction xs) auto

lemma list_all_delete:
  "list_all P xs \<Longrightarrow> list_all P (AList.delete k xs)"
  by (induction xs) auto

lemma list_all_assignProperty:
  "list_all P xs \<Longrightarrow> P (k, v) \<Longrightarrow> list_all P (assignProperty k v xs)"
  by (simp add: assignProperty_def list_all_update) (simp add: list_all_iff set_insertIndex)





lemma get_direct:
  "map_of (data st) (makeKey t f u) = Some s \<Longrightarrow> get engine st t f u = Inr (Some s)"
  by (simp add: get_def getDirect_def deepClone_def)

lemma get_patterns:
  "map_of (data st) (makeKey t f u) = None \<Longrightarrow>
   get engine st t f u = scanPatternMods engine st u"
  by (simp add: get_def getDirect_def)

lemma addPattern_eq:
  "addPattern st e = Inr st' \<Longrightarrow>
   \<exists>n. normalizeTamperSpec (tamper e) = Inr n \<and>
       (regexes e \<noteq> Undefined \<or> urls e \<noteq> Undefined) \<and>
       st' = st\<lparr>patternMods := e\<lparr>tamper := Val n\<rparr> # patternMods st\<rparr>"
  by (auto simp: addPattern_def deepClone_def Let_def split: if_splits sum.splits)

lemma setDirect_eq:
  "setDirect st k v = Inr st' \<Longrightarrow>
   \<exists>n. normalizeTamperSpec v = Inr n \<and>
       st' = st\<lparr>data := assignProperty k (n\<lparr>key := Some k\<rparr>) (data st)\<rparr>"
  by (auto simp: setDirect_def deepClone_def split: if_splits sum.splits)

lemma settled_key_update: "settled (n\<lparr>key := k\<rparr>) = settled n"
  by (simp add: settled_def settledMods_def)

lemma normalized_key_update: "normalized (n\<lparr>key := k\<rparr>) = normalized n"
  by (simp add: normalized_def normalizedMods_def)

lemma storeInv_setDirect:
  assumes "storeInv st" "setDirect st k v = Inr st'"
  shows "storeInv st'"
proof -
  from setDirect_eq[OF assms(2)] obtain n where
    n: "normalizeTamperSpec v = Inr n"
       "st' = st\<lparr>data := assignProperty k (n\<lparr>key := Some k\<rparr>) (data st)\<rparr>"
    by auto
  from normalizeTamperSpec_settled[OF n(1)] have "settled n" by simp
  then show ?thesis
    using assms(1) n(2)
    by (auto simp: storeInv_def settled_key_update distinct_assignProperty
        intro!: list_all_assignProperty)
qed

lemma storeInv_removeDirect: "storeInv st \<Longrightarrow> storeInv (removeDirect st k)"
  by (auto simp: storeInv_def removeDirect_def distinct_delete intro!: list_all_delete)

lemma storeInv_addPattern:
  assumes "storeInv st" "addPattern st e = Inr st'"
  shows "storeInv st'"
proof -
  from addPattern_eq[OF assms(2)] obtain n where
    n: "normalizeTamperSpec (tamper e) = Inr n" "regexes e \<noteq> Undefined \<or> urls e \<noteq> Undefined"
       "st' = st\<lparr>patternMods := e\<lparr>tamper := Val n\<rparr> # patternMods st\<rparr>" by blast
  from normalizeTamperSpec_settled[OF n(1)] have "settled n" by simp
  then show ?thesis using assms(1) n(2,3) by (auto simp: storeInv_def)
qed

lemma storeInv_empty: "storeInv TamperStore"
  by (simp add: storeInv_def TamperStore_def)

lemma storeInv_applyOp: "storeInv st \<Longrightarrow> storeInv (applyOp st op)"
  by (cases op)
     (auto simp: set'_def split: sum.splits
           intro: storeInv_setDirect storeInv_removeDirect storeInv_addPattern)

lemma storeInv_foldl: "storeInv st \<Longrightarrow> storeInv (foldl applyOp st ops)"
  by (induction ops arbitrary: st) (auto simp: storeInv_applyOp)

lemma storeInv_runOps: "storeInv (runOps ops)"
  by (simp add: runOps_def storeInv_foldl storeInv_empty)

lemma allNormalized_setDirect:
  assumes "allNormalized st" "setDirect st k v = Inr st'" "nullFreeArg v"
  shows "allNormalized st'"
proof -
  from setDirect_eq[OF assms(2)] obtain n where
    n: "normalizeTamperSpec v = Inr n"
       "st' = st\<lparr>data := assignProperty k (n\<lparr>key := Some k\<rparr>) (data st)\<rparr>"
    by auto
  from normalizeTamperSpec_nullFree[OF n(1) assms(3)] have "normalized n" .
  then show ?thesis
    using assms(1) n(2)
    by (auto simp: allNormalized_def normalized_key_update intro!: list_all_assignProperty)
qed

lemma allNormalized_addPattern:
  assumes "allNormalized st" "addPattern st e = Inr st'" "nullFreeArg (tamper e)"
  shows "allNormalized st'"
proof -
  from addPattern_eq[OF assms(2)] obtain n where
    n: "normalizeTamperSpec (tamper e) = Inr n"
       "st' = st\<lparr>patternMods := e\<lparr>tamper := Val n\<rparr> # patternMods st\<rparr>" by blast
  from normalizeTamperSpec_nullFree[OF n(1) assms(3)] have "normalized n" .
  then show ?thesis using assms(1) n(2) by (auto simp: allNormalized_def)
qed

lemma allNormalized_applyOp:
  "allNormalized st \<Longrightarrow> nullFreeOp op \<Longrightarrow> allNormalized (applyOp st op)"
  by (cases op)
     (auto simp: set'_def allNormalized_def removeDirect_def split: sum.splits
           intro: allNormalized_setDirect[unfolded allNormalized_def, THEN conjunct1]
                  allNormalized_setDirect[unfolded allNormalized_def, THEN conjunct2]
                  allNormalized_addPattern[unfolded allNormalized_def, THEN conjunct1]
                  allNormalized_addPattern[unfolded allNormalized_def, THEN conjunct2]
                  list_all_delete)

lemma allNormalized_foldl:
  "allNormalized st \<Longrightarrow> list_all nullFreeOp ops \<Longrightarrow> allNormalized (foldl applyOp st ops)"
  by (induction ops arbitrary: st) (auto simp: allNormalized_applyOp)

lemma allNormalized_empty: "allNormalized TamperStore"
  by (simp add: allNormalized_def TamperStore_def)

lemma allNormalized_runOps: "list_all nullFreeOp ops \<Longrightarrow> allNormalized (runOps ops)"
  by (simp add: runOps_def allNormalized_foldl allNormalized_empty)

lemma getByRequestIdLoop_mem:
  "getByRequestIdLoop xs rid = Some s \<Longrightarrow> \<exists>k. (k, s) \<in> set xs \<and> requestId s = Some rid"
  by (induction xs) (auto simp: deepClone_def split: if_splits)

lemma getByRequestIdLoop_filter:
  "getByRequestIdLoop xs rid =
     (case filter (\<lambda>s. requestId s = Some rid) (map snd xs) of [] \<Rightarrow> None | s # ss \<Rightarrow> Some s)"
  by (induction xs) (auto simp: deepClone_def)

lemma storeInv_direct:
  "storeInv st \<Longrightarrow> (k, s) \<in> set (data st) \<Longrightarrow> settled s \<and> key s = Some k"
  by (auto simp: storeInv_def list_all_iff)

lemma scanPatternMods_mem:
  assumes "scanPatternMods engine st u = Inr (Some s)"
  shows "\<exists>e \<in> set (patternMods st). tamper e = Val s"
proof -
  have "scanLoop engine u ps = Inr (Val s) \<Longrightarrow> \<exists>e \<in> set ps. tamper e = Val s" for ps
    by (induction ps) (auto split: sum.splits if_splits)
  moreover from assms have "scanLoop engine u (patternMods st) = Inr (Val s)"
    by (auto simp: scanPatternMods_def deepClone_def split: sum.splits field.splits)
  ultimately show ?thesis by blast
qed

lemma storeInv_pattern:
  "storeInv st \<Longrightarrow> e \<in> set (patternMods st) \<Longrightarrow> \<exists>t. tamper e = Val t \<and> settled t"
  by (cases "tamper e") (auto simp: storeInv_def list_all_iff)

lemma allNormalized_direct:
  "allNormalized st \<Longrightarrow> (k, s) \<in> set (data st) \<Longrightarrow> normalized s"
  by (auto simp: allNormalized_def list_all_iff)

lemma allNormalized_pattern:
  "allNormalized st \<Longrightarrow> e \<in> set (patternMods st) \<Longrightarrow> \<exists>t. tamper e = Val t \<and> normalized t"
  by (cases "tamper e") (auto simp: allNormalized_def list_all_iff)

section \<open>Evaluation on the concrete inputs\<close>

lemma makeKey_1_0: "makeKey 1 0 u = str ''1::0::'' @ u"
  by (simp add: makeKey_def numberToString_def natDigits.simps str_def)

lemma normalize_emptySpec: "normalizeTamperSpec (Val emptySpec) = Inr plainSpec"
  by (simp add: normalizeTamperSpec_def emptySpec_def plainSpec_def defaultTo_def emptyMods_def
      doNormalize_def)

lemma assignProperty_1_0: "assignProperty (str ''1::0::'' @ u) v xs = AList.update (str ''1::0::'' @ u) v xs"
  using assignProperty_plain[OF isArrayIndex_makeKey[of 1 0 u]] by (simp add: makeKey_1_0)

lemma runOps_exampleOps:
  "runOps exampleOps =
     \<lparr>data = [(str ''1::0::'' @ urlB, plainSpec\<lparr>key := Some (str ''1::0::'' @ urlB)\<rparr>)],
      patternMods = [\<lparr>regexes = Val [(urlA, None)], urls = Undefined, tamper = Val plainSpec\<rparr>]\<rparr>"
  by (simp add: exampleOps_def runOps_def addPattern_def TamperStore_def deepClone_def
      normalize_emptySpec set'_def setDirect_def makeKey_1_0 assignProperty_1_0)

lemma urlA_neq_urlB: "urlA \<noteq> urlB"
  by (simp add: urlA_def urlB_def str_def)

text \<open>
  Two specs stored under the keys \<^verbatim>\<open>2\<close> and \<^verbatim>\<open>1\<close>, in this order, are enumerated with the
  key \<^verbatim>\<open>1\<close> first, and that one is what \<^verbatim>\<open>getByRequestId\<close> finds.
\<close>

lemma array_index_keys_first:
  "map fst (data (runOps [SetDirect (str ''2'') (Val (emptySpec\<lparr>requestId := Some rid7\<rparr>)),
                          SetDirect (str ''1'') (Val (emptySpec\<lparr>requestId := Some rid7\<rparr>))])) =
     [str ''1'', str ''2''] \<and>
   getByRequestId
     (runOps [SetDirect (str ''2'') (Val (emptySpec\<lparr>requestId := Some rid7\<rparr>)),
              SetDirect (str ''1'') (Val (emptySpec\<lparr>requestId := Some rid7\<rparr>))]) rid7 =
     Some (plainSpec\<lparr>requestId := Some rid7, key := Some (str ''1'')\<rparr>)"
proof -
  have n: "normalizeTamperSpec (Val (emptySpec\<lparr>requestId := Some rid7\<rparr>)) =
      Inr (plainSpec\<lparr>requestId := Some rid7\<rparr>)"
    by (simp add: normalizeTamperSpec_def emptySpec_def plainSpec_def defaultTo_def emptyMods_def
        doNormalize_def)
  have i: "isArrayIndex (str ''1'')" "isArrayIndex (str ''2'')"
    "digitsValue (str ''1'') = 1" "digitsValue (str ''2'') = 2"
    by (simp_all add: isArrayIndex_def digitsValue_def str_def)
  show ?thesis
    by (simp add: runOps_def setDirect_def deepClone_def n TamperStore_def assignProperty_def i
        getByRequestId_def)
       (simp add: str_def)
qed
section \<open>Request lifecycle driver: the response listener\<close>

lemma getByRequestId_boundTo:
  "getByRequestId st rid = (case boundTo st rid of [] \<Rightarrow> None | s # ss \<Rightarrow> Some s)"
  by (simp add: getByRequestId_def boundTo_def getByRequestIdLoop_filter)

lemma getByRequestId_stored:
  assumes "storeInv st" "getByRequestId st rid = Some spec"
  shows "settled spec \<and> requestId spec = Some rid \<and>
         (\<exists>k. key spec = Some k \<and> keyOf spec = k \<and> map_of (data st) k = Some spec)"
proof -
  from assms(2) obtain k where k: "(k, spec) \<in> set (data st)" "requestId spec = Some rid"
    by (auto simp: getByRequestId_def dest: getByRequestIdLoop_mem)
  with assms(1) have n: "settled spec" "key spec = Some k" by (auto dest: storeInv_direct)
  from assms(1) k(1) have "map_of (data st) k = Some spec"
    by (simp add: storeInv_def)
  with n k show ?thesis by (simp add: keyOf_def)
qed

lemma set'_settled:
  "settled spec \<Longrightarrow>
   set' st t f u (Val spec) =
     Inr (st\<lparr>data := AList.update (makeKey t f u) (spec\<lparr>key := Some (makeKey t f u)\<rparr>) (data st)\<rparr>)"
  by (simp add: set'_def setDirect_def deepClone_def normalizeTamperSpec_of_settled
      assignProperty_plain isArrayIndex_makeKey)

lemma checkIfRedirect_terminal:
  "\<not> isRedirectStatus (statusCode d) \<Longrightarrow> checkIfRedirect lc d = Inr None"
  by (simp add: checkIfRedirect_def isRedirectStatus_def)

lemma checkIfRedirect_redirect:
  "isRedirectStatus (statusCode d) \<Longrightarrow>
   checkIfRedirect lc d =
     (case getHeader lc (responseHeaders d) (str ''Location'') of
        None \<Rightarrow> Inl (Error ''tamperApi::checkIfRedirect: found 301 status but no location header.'')
      | Some target \<Rightarrow> Inr (Some target))"
  by (auto simp: checkIfRedirect_def isRedirectStatus_def)

lemma removeHeaders_eq:
  "removeHeaders lc hs rm = filter (\<lambda>h. lc (name h) \<notin> set (map lc rm)) hs"
  using removeHeadersLoop_eq[of 0 hs lc "map lc rm"] by (simp add: removeHeaders_def)

lemma applyResponseMods_eq:
  "applyResponseMods lc spec hs =
     (if responseModsRaise spec then Inl TypeError
      else
        (case response spec of
           Val r \<Rightarrow>
             Inr (filter (\<lambda>h. lc (name h) \<notin> set (map lc (orElse (remove r) [])))
                    (foldl (applyEntry lc) hs (orElse (headers r) [])),
                  Some (filter (\<lambda>h. lc (name h) \<notin> set (map lc (orElse (remove r) [])))
                    (foldl (applyEntry lc) hs (orElse (headers r) []))))
         | _ \<Rightarrow> Inr (hs, None)))"
  by (auto simp: applyResponseMods_def responseModsRaise_def setHeaders_eq removeHeaders_eq
      Let_def shadowsHasOwnProperty_def split: field.splits)

lemma applyResponseMods_raises:
  "responseModsRaise spec \<Longrightarrow> applyResponseMods lc spec hs = Inl TypeError"
  by (simp add: applyResponseMods_eq)

lemma applyResponseMods_returns:
  "\<not> responseModsRaise spec \<Longrightarrow> \<exists>dh rh. applyResponseMods lc spec hs = Inr (dh, rh)"
  by (simp add: applyResponseMods_eq Let_def split: field.splits)

lemma onHeadersReceived_raises:
  assumes "getByRequestId st (eventRequestId d) = Some spec" "responseModsRaise spec"
  shows "onHeadersReceived lc st d = (st, Inl TypeError)"
  using assms by (simp add: onHeadersReceived_def applyResponseMods_raises)

lemma onHeadersReceived_terminal:
  assumes "getByRequestId st (eventRequestId d) = Some spec"
    "\<not> isRedirectStatus (statusCode d)"
    "applyResponseMods lc spec (responseHeaders d) = Inr (dh, rh)"
  shows "onHeadersReceived lc st d =
    (case opts spec of
       Val os \<Rightarrow> ((if onceSet spec then removeDirect st (keyOf spec) else st), Inr rh)
     | _ \<Rightarrow> (st, Inl TypeError))"
  using assms
  by (auto simp: onHeadersReceived_def checkIfRedirect_terminal onceSet_def split: field.splits)

lemma onHeadersReceived_malformed:
  assumes "getByRequestId st (eventRequestId d) = Some spec"
    "isRedirectStatus (statusCode d)"
    "applyResponseMods lc spec (responseHeaders d) = Inr (dh, rh)"
    "getHeader lc dh (str ''Location'') = None"
  shows "onHeadersReceived lc st d =
    (st, Inl (Error ''tamperApi::checkIfRedirect: found 301 status but no location header.''))"
  using assms
  by (auto simp: onHeadersReceived_def checkIfRedirect_redirect)

lemma onHeadersReceived_redirect:
  assumes "storeInv st" "getByRequestId st (eventRequestId d) = Some spec"
    "isRedirectStatus (statusCode d)"
    "applyResponseMods lc spec (responseHeaders d) = Inr (dh, rh)"
    "getHeader lc dh (str ''Location'') = Some target"
  shows "onHeadersReceived lc st d =
    (st\<lparr>data := AList.update (makeKey (tabId d) (frameId d) target)
                   (spec\<lparr>key := Some (makeKey (tabId d) (frameId d) target)\<rparr>)
                   (AList.delete (keyOf spec) (data st))\<rparr>,
     Inr rh)"
proof -
  from getByRequestId_stored[OF assms(1,2)] have n: "settled spec" by simp
  show ?thesis
    using assms(2,3,4,5)
    by (auto simp: onHeadersReceived_def checkIfRedirect_redirect set'_settled[OF n]
        removeDirect_def Let_def)
qed

lemma map_of_delete_same: "map_of (AList.delete k xs) k = None"
  by (simp add: delete_as_filter map_of_eq_None_iff image_iff)

lemma makeKey_inj: "makeKey t f u = makeKey t f u' \<longleftrightarrow> u = u'"
  by (simp add: makeKey_def)

lemma getHeader_filter:
  "getHeader lc hs k = getHeader lc (filter (\<lambda>h. lc (name h) = lc k) hs) k"
  by (induction hs) auto

lemma applyEntry_other_names:
  "\<forall>kv \<in> set toSet. lc (fst kv) \<noteq> lc L \<Longrightarrow>
   filter (\<lambda>h. lc (name h) = lc L) (foldl (applyEntry lc) hs toSet) =
   filter (\<lambda>h. lc (name h) = lc L) hs"
proof (induction toSet arbitrary: hs)
  case Nil
  then show ?case by simp
next
  case (Cons kv toSet)
  obtain k v where kv: "kv = (k, v)" by (cases kv)
  with Cons.prems have ne: "lc k \<noteq> lc L" by simp
  have m: "filter (\<lambda>h. lc (name h) = lc L) (map (overwrite lc k v) hs) =
           filter (\<lambda>h. lc (name h) = lc L) hs"
    using ne by (induction hs) (auto simp: overwrite_def)
  show ?case
    using Cons.IH[of "map (overwrite lc k v) hs"] Cons.IH[of "hs @ [\<lparr>name = k, value = v\<rparr>]"]
      Cons.prems ne m
    by (simp add: kv applyEntry_eq)
qed

lemma getHeader_untouched:
  assumes "\<not> touchesLocation lc spec" "applyResponseMods lc spec hs = Inr (dh, rh)"
  shows "getHeader lc dh (str ''Location'') = getHeader lc hs (str ''Location'')"
proof (cases "\<exists>r. response spec = Val r")
  case False
  then have "dh = hs" using assms(2)
    by (auto simp: applyResponseMods_eq split: field.splits if_splits)
  then show ?thesis by simp
next
  case True
  then obtain r where r: "response spec = Val r" by blast
  let ?L = "str ''Location''"
  let ?h1 = "foldl (applyEntry lc) hs (orElse (headers r) [])"
  let ?rm = "orElse (remove r) []"
  from assms(1) r have a: "\<forall>kv \<in> set (orElse (headers r) []). lc (fst kv) \<noteq> lc ?L"
    and b: "lc ?L \<notin> set (map lc ?rm)"
    by (auto simp: touchesLocation_def list_ex_iff)
  have dh: "dh = filter (\<lambda>h. lc (name h) \<notin> set (map lc ?rm)) ?h1"
    using assms(2) r by (auto simp: applyResponseMods_eq Let_def split: if_splits)
  have f1: "filter (\<lambda>h. lc (name h) = lc ?L) ?h1 = filter (\<lambda>h. lc (name h) = lc ?L) hs"
    using a by (rule applyEntry_other_names)
  have "(lc (name x) \<notin> set (map lc ?rm) \<and> lc (name x) = lc ?L) = (lc (name x) = lc ?L)"
    for x :: header
    using b by metis
  then have f2: "filter (\<lambda>h. lc (name h) = lc ?L) dh = filter (\<lambda>h. lc (name h) = lc ?L) ?h1"
    unfolding dh filter_filter by simp
  show ?thesis
    using getHeader_filter[of lc dh ?L] getHeader_filter[of lc hs ?L] f1 f2 by simp
qed
lemma storeInv_keys:
  assumes "storeInv st"
  shows "map (\<lambda>ks. key (snd ks)) (data st) = map (\<lambda>ks. Some (fst ks)) (data st)"
  using assms by (auto simp: storeInv_def list_all_iff)

lemma boundTo_removeDirect:
  assumes "storeInv st" "boundTo st rid = spec # others"
  shows "boundTo (removeDirect st (keyOf spec)) rid = others"
proof -
  let ?xs = "map snd (data st)"
  let ?P = "\<lambda>s. requestId s = Some rid"
  have spec_in: "spec \<in> set ?xs"
    using assms(2) by (metis boundTo_def filter_is_subset list.set_intros(1) subsetD)
  then obtain k where k: "(k, spec) \<in> set (data st)" by auto
  with assms(1) have ks: "key spec = Some k" by (auto dest: storeInv_direct)
  then have kof: "keyOf spec = k" by (simp add: keyOf_def)
  have e: "map (key \<circ> snd) (data st) = map (Some \<circ> fst) (data st)"
    using assms(1) by (auto simp: storeInv_def list_all_iff)
  have "distinct (map fst (data st))" using assms(1) by (simp add: storeInv_def)
  then have "distinct (map Some (map fst (data st)))"
    by (subst distinct_map) (auto simp: inj_on_def)
  then have dk: "distinct (map key ?xs)" by (simp add: e)
  have del: "map snd (AList.delete k (data st)) = filter (\<lambda>s. key s \<noteq> Some k) ?xs"
  proof -
    have "\<forall>ks \<in> set xs. key (snd ks) = Some (fst ks) \<Longrightarrow>
          map snd (AList.delete k xs) = filter (\<lambda>s. key s \<noteq> Some k) (map snd xs)"
      for xs :: "(jsstring \<times> tamperSpec) list"
      by (induction xs) auto
    then show ?thesis using assms(1) by (auto simp: storeInv_def list_all_iff)
  qed
  have "distinct (map key (filter ?P ?xs))" using dk by (simp add: distinct_map_filter)
  then have "distinct (map key (spec # others))" using assms(2) by (simp add: boundTo_def)
  then have oth: "\<forall>s \<in> set others. key s \<noteq> Some k" using ks by (auto simp: image_iff)
  have "boundTo (removeDirect st (keyOf spec)) rid = filter ?P (filter (\<lambda>s. key s \<noteq> Some k) ?xs)"
    by (simp add: boundTo_def removeDirect_def kof del)
  also have "\<dots> = filter (\<lambda>s. key s \<noteq> Some k) (filter ?P ?xs)"
    by (simp add: conj_commute)
  also have "\<dots> = filter (\<lambda>s. key s \<noteq> Some k) (spec # others)"
    using assms(2) by (simp add: boundTo_def)
  also have "\<dots> = others" using ks oth by simp
  finally show ?thesis .
qed

section \<open>Evaluation of the listeners on the concrete inputs\<close>

lemma makeKey_urlA: "makeKey 1 0 urlA = keyA"
  by (simp add: makeKey_1_0 keyA_def urlA_def str_def)

lemma makeKey_urlB: "makeKey 1 0 urlB = keyB"
  by (simp add: makeKey_1_0 keyB_def urlB_def str_def)

lemma keyA_neq_keyB: "keyA \<noteq> keyB" "keyB \<noteq> keyA"
  by (simp_all add: keyA_def keyB_def str_def)

lemma normalized_examples:
  "normalized plainSpec" "normalized boundSpec" "normalized onceSpec" "normalized locationSpec"
  by (simp_all add: normalized_def normalizedMods_def noNullHeader_def plainSpec_def boundSpec_def
      onceSpec_def locationSpec_def)

lemma settled_examples:
  "settled plainSpec" "settled boundSpec" "settled onceSpec" "settled locationSpec"
  using normalized_examples by (simp_all add: normalized_iff)

lemma storeWith_eq:
  "settled s \<Longrightarrow> storeWith s = \<lparr>data = [(keyA, s\<lparr>key := Some keyA\<rparr>)], patternMods = []\<rparr>"
  by (simp add: storeWith_def runOps_def set'_settled TamperStore_def makeKey_urlA)

lemma patternStore_eq:
  "patternStore =
     \<lparr>data = [], patternMods = [\<lparr>regexes = Undefined, urls = Val [urlA], tamper = Val plainSpec\<rparr>]\<rparr>"
  by (simp add: patternStore_def runOps_def addPattern_def TamperStore_def deepClone_def
      normalize_emptySpec)

lemma sentStore_eq:
  "sentStore =
     \<lparr>data = [(keyA, boundSpec\<lparr>key := Some keyA\<rparr>)],
      patternMods = [\<lparr>regexes = Undefined, urls = Val [urlA], tamper = Val plainSpec\<rparr>]\<rparr>"
proof -
  have g: "get toyEngine patternStore (tabId dSend) (frameId dSend) (url dSend) = Inr (Some plainSpec)"
    by (simp add: patternStore_eq get_def getDirect_def scanPatternMods_def entryMatched_def
        deepClone_def dSend_def)
  have n: "settled (plainSpec\<lparr>requestId := Some rid7\<rparr>)"
    using settled_examples(2) by (simp add: boundSpec_def)
  have h: "headers plainSpec = Val []" "remove plainSpec = Val []" by (simp_all add: plainSpec_def)
  show ?thesis
    unfolding sentStore_def onBeforeSendHeaders_def g
    by (simp add: dSend_def set'_settled[OF n] makeKey_urlA boundSpec_def patternStore_eq Let_def
        h setHeaders_def removeHeaders_eq)
qed

lemma getByRequestId_storeWith:
  "settled s \<Longrightarrow> requestId s = Some rid7 \<Longrightarrow>
   getByRequestId (storeWith s) rid7 = Some (s\<lparr>key := Some keyA\<rparr>)"
  by (simp add: storeWith_eq getByRequestId_def deepClone_def)

lemma applyResponseMods_locationSpec:
  "applyResponseMods asciiLower (locationSpec\<lparr>key := k\<rparr>) [] =
     Inr ([\<lparr>name = str ''Location'', value = Some urlB\<rparr>],
          Some [\<lparr>name = str ''Location'', value = Some urlB\<rparr>])"
  unfolding applyResponseMods_eq
  by (simp add: locationSpec_def responseModsRaise_def shadowsHasOwnProperty_def applyEntry_def
      str_def)

section \<open>Spec transport codec: the round trip\<close>

lemma hexUpper_ok: "h < 16 \<Longrightarrow> isUpperHex (hexUpper h) \<and> hexDigitVal (hexUpper h) = h"
  by (auto simp: hexUpper_def isUpperHex_def hexDigitVal_def)

lemma hexLower_ok: "h < 16 \<Longrightarrow> isHexDigit (hexLower h) \<and> hexDigitVal (hexLower h) = h"
  by (auto simp: hexLower_def isHexDigit_def hexDigitVal_def)

lemma toSolidBytes_pct:
  "b < 256 \<Longrightarrow> toSolidBytes (pctUpper b @ r) = b # toSolidBytes r"
proof -
  assume "b < 256"
  then have "b div 16 < 16" "b mod 16 < 16" by auto
  then show ?thesis
    using hexUpper_ok[of "b div 16"] hexUpper_ok[of "b mod 16"]
    by (simp add: pctUpper_def)
qed

lemma toSolidBytes_pcts:
  "\<forall>b \<in> set bs. b < 256 \<Longrightarrow> toSolidBytes (concat (map pctUpper bs) @ r) = bs @ toSolidBytes r"
  by (induction bs) (simp_all add: toSolidBytes_pct del: toSolidBytes.simps)

lemma toSolidBytes_lit: "c \<noteq> 37 \<Longrightarrow> toSolidBytes (c # r) = c # toSolidBytes r"
  by (cases r rule: toSolidBytes.cases) auto

lemma utf8_bytes_bound: "cp < 1114112 \<Longrightarrow> \<forall>b \<in> set (utf8 cp). b < 256"
  by (auto simp: utf8_def)

lemma unreserved_ascii: "isUnreserved c \<Longrightarrow> c < 128 \<and> c \<noteq> 37"
  by (auto simp: isUnreserved_def)

lemma pair_cp_bound:
  "isLeadSurrogate c \<Longrightarrow> isTrailSurrogate d \<Longrightarrow>
   65536 \<le> (c - 55296) * 1024 + (d - 56320) + 65536 \<and>
   (c - 55296) * 1024 + (d - 56320) + 65536 < 1114112"
  by (auto simp: isLeadSurrogate_def isTrailSurrogate_def)

lemma lead_not_unreserved: "isLeadSurrogate c \<Longrightarrow> \<not> isUnreserved c \<and> \<not> isTrailSurrogate c"
  by (auto simp: isLeadSurrogate_def isUnreserved_def isTrailSurrogate_def)

lemma encode_bytes:
  "wellFormedUtf16 s \<Longrightarrow>
   \<exists>e. encodeURIComponent s = Inr e \<and> toSolidBytes e = utf8Bytes s"
proof (induction s rule: wellFormedUtf16.induct)
  case 1
  then show ?case by simp
next
  case (2 c)
  then have b: "\<forall>b \<in> set (utf8 c). b < 256" by (intro utf8_bytes_bound) simp
  show ?case
  proof (cases "isUnreserved c")
    case True
    then show ?thesis using unreserved_ascii[OF True] by (simp add: utf8_def)
  next
    case False
    with 2 b show ?thesis
      using toSolidBytes_pcts[OF b, of "[]"] by simp
  qed
next
  case (3 c d rest)
  show ?case
  proof (cases "isLeadSurrogate c")
    case True
    with 3 have t: "isTrailSurrogate d" and w: "wellFormedUtf16 rest" by auto
    from 3(1)[OF True w] obtain e where e: "encodeURIComponent rest = Inr e"
      "toSolidBytes e = utf8Bytes rest" by blast
    let ?cp = "(c - 55296) * 1024 + (d - 56320) + 65536"
    have b: "\<forall>b \<in> set (utf8 ?cp). b < 256"
      using pair_cp_bound[OF True t] by (intro utf8_bytes_bound) simp
    show ?thesis
      using True t e lead_not_unreserved[OF True] toSolidBytes_pcts[OF b, of e]
      by simp
  next
    case False
    with 3 have c: "c < 65536" "\<not> isTrailSurrogate c" and w: "wellFormedUtf16 (d # rest)" by auto
    from 3(2)[OF False w] obtain e where e: "encodeURIComponent (d # rest) = Inr e"
      "toSolidBytes e = utf8Bytes (d # rest)" by blast
    have b: "\<forall>b \<in> set (utf8 c). b < 256" using c by (intro utf8_bytes_bound) simp
    show ?thesis
    proof (cases "isUnreserved c")
      case True
      have "encodeURIComponent (c # d # rest) = Inr (c # e)"
        by (subst encodeURIComponent.simps(2)) (simp add: True e(1) del: encodeURIComponent.simps(2))
      moreover have "toSolidBytes (c # e) = utf8Bytes (c # d # rest)"
        using False unreserved_ascii[OF True] e(2)
        by (simp add: utf8_def toSolidBytes_lit del: toSolidBytes.simps utf8Bytes.simps(3))
           (simp add: utf8_def)
      ultimately show ?thesis by blast
    next
      case u: False
      show ?thesis
        using False c u e toSolidBytes_pcts[OF b, of e] by simp
    qed
  qed
qed

lemma utf8Bytes_bound: "wellFormedUtf16 s \<Longrightarrow> \<forall>b \<in> set (utf8Bytes s). b < 256"
proof (induction s rule: wellFormedUtf16.induct)
  case 1
  then show ?case by simp
next
  case (2 c)
  then show ?case using utf8_bytes_bound[of c] by simp
next
  case (3 c d rest)
  show ?case
  proof (cases "isLeadSurrogate c")
    case True
    with 3 have t: "isTrailSurrogate d" and w: "wellFormedUtf16 rest" by auto
    show ?thesis
      using True 3(1)[OF True w] utf8_bytes_bound[of "(c - 55296) * 1024 + (d - 56320) + 65536"]
        pair_cp_bound[OF True t] by auto
  next
    case False
    with 3 have c: "c < 65536" and w: "wellFormedUtf16 (d # rest)" by auto
    show ?thesis
      using False 3(2)[OF False w] utf8_bytes_bound[of c] c by auto
  qed
qed

lemma b64val_b64char: "i < 64 \<Longrightarrow> b64val (b64char i) = Some i"
  by (auto simp: b64val_def b64char_def)

lemma b64char_plain: "i < 64 \<Longrightarrow> b64char i \<noteq> 61 \<and> \<not> isAsciiWhitespace (b64char i) \<and> b64char i \<noteq> 36"
  by (auto simp: b64char_def isAsciiWhitespace_def)

lemma btoaLoop_eq: "btoaLoop bs = map b64char (sextetsOf bs) @ paddingOf bs"
  by (induction bs rule: btoaLoop.induct) auto

lemma sextetsOf_bound: "\<forall>b \<in> set bs. b < 256 \<Longrightarrow> \<forall>x \<in> set (sextetsOf bs). x < 64"
  by (induction bs rule: sextetsOf.induct) auto

lemma atobLoop_sextetsOf: "\<forall>b \<in> set bs. b < 256 \<Longrightarrow> atobLoop (sextetsOf bs) = bs"
  by (induction bs rule: sextetsOf.induct) auto

lemma length_sextets_padding:
  "(length (sextetsOf bs) + length (paddingOf bs)) mod 4 = 0 \<and> length (sextetsOf bs) mod 4 \<noteq> 1 \<and>
   (paddingOf bs \<noteq> [] \<longrightarrow> sextetsOf bs \<noteq> [])"
  by (induction bs rule: sextetsOf.induct) auto

lemma paddingOf_cases: "paddingOf bs = [] \<or> paddingOf bs = [61] \<or> paddingOf bs = [61, 61]"
  by (induction bs rule: paddingOf.induct) auto

lemma those_b64val: "\<forall>x \<in> set xs. x < 64 \<Longrightarrow> those (map (b64val \<circ> b64char) xs) = Some xs"
  by (induction xs) (auto simp: b64val_b64char)

lemma stripPadding_btoa:
  assumes "\<forall>x \<in> set xs. x < 64" "(length xs + length p) mod 4 = 0"
    "p = [] \<or> p = [61] \<or> p = [61, 61]" "p \<noteq> [] \<longrightarrow> xs \<noteq> []"
  shows "stripPadding (map b64char xs @ p) = map b64char xs"
proof -
  have l: "last (map b64char xs) \<noteq> 61" if "xs \<noteq> []"
    using that assms(1) b64char_plain[of "last xs"] by (simp add: last_map)
  from assms(3) consider "p = []" | "p = [61]" | "p = [61, 61]" by blast
  then show ?thesis
  proof cases
    case 1
    then show ?thesis using l by (auto simp: stripPadding_def)
  next
    case 2
    with assms(4) have "xs \<noteq> []" by simp
    with 2 l assms(2) show ?thesis by (simp add: stripPadding_def butlast_append)
  next
    case 3
    with assms(4) have "xs \<noteq> []" by simp
    with 3 l assms(2) show ?thesis by (simp add: stripPadding_def butlast_append)
  qed
qed

lemma atob_btoa:
  assumes "\<forall>b \<in> set bs. b < 256"
  shows "btoa bs = Inr (btoaLoop bs) \<and> atob (btoaLoop bs) = Inr bs"
proof -
  let ?xs = "sextetsOf bs" and ?p = "paddingOf bs"
  have sx: "\<forall>x \<in> set ?xs. x < 64" using assms by (rule sextetsOf_bound)
  have f: "filter (\<lambda>c. \<not> isAsciiWhitespace c) (btoaLoop bs) = btoaLoop bs"
  proof -
    have "\<not> isAsciiWhitespace c" if "c \<in> set (btoaLoop bs)" for c
    proof -
      from that have "c \<in> b64char ` set ?xs \<or> c \<in> set ?p" by (auto simp: btoaLoop_eq)
      moreover have "c \<in> set ?p \<Longrightarrow> c = 61" using paddingOf_cases[of bs] by auto
      ultimately show ?thesis using sx b64char_plain by (auto simp: isAsciiWhitespace_def)
    qed
    then show ?thesis by (simp add: filter_id_conv)
  qed
  have s: "stripPadding (btoaLoop bs) = map b64char ?xs"
    unfolding btoaLoop_eq
    using sx length_sextets_padding[of bs] paddingOf_cases[of bs]
    by (intro stripPadding_btoa) auto
  have "atob (btoaLoop bs) = Inr bs"
    using length_sextets_padding[of bs] sx assms
    by (simp add: atob_def f s those_b64val atobLoop_sextetsOf)
  moreover have "btoa bs = Inr (btoaLoop bs)" using assms by (auto simp: btoa_def)
  ultimately show ?thesis by simp
qed

lemma pctLower_byte: "b < 256 \<Longrightarrow> pctLower b = [37, hexLower (b div 16), hexLower (b mod 16)]"
  by (simp add: pctLower_def)

lemma parseHexOctet_pct:
  assumes "b < 256"
  shows "parseHexOctet (hexLower (b div 16) # hexLower (b mod 16) # r) = Some (b, r)"
proof -
  from assms have "b div 16 < 16" "b mod 16 < 16" by auto
  then show ?thesis
    using hexLower_ok[of "b div 16"] hexLower_ok[of "b mod 16"] by simp
qed

lemma readContinuation_pcts:
  "\<forall>b \<in> set bs. b < 256 \<Longrightarrow>
   readContinuation (length bs) (concat (map pctLower bs) @ r) = Some (bs, r)"
  by (induction bs) (simp_all add: pctLower_byte parseHexOctet_pct del: parseHexOctet.simps)

lemma decode_pct_ascii:
  assumes "b < 128"
  shows "decodeURIComponent (pctLower b @ r) =
     (case decodeURIComponent r of Inl e \<Rightarrow> Inl e | Inr x \<Rightarrow> Inr (b # x))"
proof -
  from assms have b: "b < 256" by simp
  show ?thesis
    using assms
    by (simp add: pctLower_byte[OF b] parseHexOctet_pct[OF b] leadingOnes_def
        del: parseHexOctet.simps)
qed

lemma decode_pct_sequence:
  assumes "\<forall>b \<in> set (b0 # bs). b < 256" "leadingOnes b0 = Suc (length bs)" "bs \<noteq> []"
    "length bs < 4" "utf8Decode (b0 # bs) = Some cp"
  shows "decodeURIComponent (concat (map pctLower (b0 # bs)) @ r) =
     (case decodeURIComponent r of Inl e \<Rightarrow> Inl e | Inr x \<Rightarrow> Inr (utf16 cp @ x))"
proof -
  from assms(1) have b0: "b0 < 256" and bs: "\<forall>b \<in> set bs. b < 256" by auto
  from assms(2,3) have l: "leadingOnes b0 \<noteq> 0" "leadingOnes b0 \<noteq> 1" "\<not> 4 < leadingOnes b0"
    "leadingOnes b0 - 1 = length bs"
    using assms(4) by (cases bs; simp)+
  show ?thesis
    using l assms(5)
    by (simp add: pctLower_byte[OF b0] parseHexOctet_pct[OF b0] readContinuation_pcts[OF bs]
        del: parseHexOctet.simps)
qed

lemma split_three:
  "(n::nat) div 4096 * 4096 + (n div 64) mod 64 * 64 + n mod 64 = n"
proof -
  have a: "n div 4096 = n div 64 div 64" by (simp add: div_mult2_eq)
  have b: "n div 64 div 64 * 64 + (n div 64) mod 64 = n div 64" by simp
  have c: "n div 64 * 64 + n mod 64 = n" by simp
  from a b c show ?thesis by linarith
qed

lemma split_four:
  "(n::nat) div 262144 * 262144 + (n div 4096) mod 64 * 4096 + (n div 64) mod 64 * 64 + n mod 64 = n"
proof -
  have a: "n div 262144 = n div 4096 div 64" by (simp add: div_mult2_eq)
  have b: "n div 4096 div 64 * 64 + (n div 4096) mod 64 = n div 4096" by simp
  from a b split_three[of n] show ?thesis by linarith
qed

lemma utf8_two:
  assumes "128 \<le> cp" "cp < 2048"
  shows "decodeURIComponent (concat (map pctLower (utf8 cp)) @ r) =
     (case decodeURIComponent r of Inl e \<Rightarrow> Inl e | Inr x \<Rightarrow> Inr (utf16 cp @ x))"
proof -
  have u: "utf8 cp = [192 + cp div 64, 128 + cp mod 64]" using assms by (simp add: utf8_def)
  have d: "utf8Decode [192 + cp div 64, 128 + cp mod 64] = Some cp"
    using assms by (simp add: isContinuation_def)
  have lo: "leadingOnes (192 + cp div 64) = 2" using assms by (simp add: leadingOnes_def)
  show ?thesis
    unfolding u using assms d lo
    by (intro decode_pct_sequence) auto
qed

lemma utf8_three:
  assumes "2048 \<le> cp" "cp < 65536" "\<not> (55296 \<le> cp \<and> cp \<le> 57343)"
  shows "decodeURIComponent (concat (map pctLower (utf8 cp)) @ r) =
     (case decodeURIComponent r of Inl e \<Rightarrow> Inl e | Inr x \<Rightarrow> Inr (utf16 cp @ x))"
proof -
  let ?bs = "[224 + cp div 4096, 128 + (cp div 64) mod 64, 128 + cp mod 64]"
  have u: "utf8 cp = ?bs" using assms by (simp add: utf8_def)
  have e: "cp div 4096 * 4096 + (cp div 64) mod 64 * 64 + cp mod 64 = cp"
    using split_three[of cp] by simp
  have d: "utf8Decode ?bs = Some cp"
    using assms e by (simp add: isContinuation_def)
  have lo: "leadingOnes (224 + cp div 4096) = 3" using assms by (simp add: leadingOnes_def)
  show ?thesis
    unfolding u using assms d lo
    by (intro decode_pct_sequence) auto
qed

lemma utf8_four:
  assumes "65536 \<le> cp" "cp < 1114112"
  shows "decodeURIComponent (concat (map pctLower (utf8 cp)) @ r) =
     (case decodeURIComponent r of Inl e \<Rightarrow> Inl e | Inr x \<Rightarrow> Inr (utf16 cp @ x))"
proof -
  let ?bs = "[240 + cp div 262144, 128 + (cp div 4096) mod 64, 128 + (cp div 64) mod 64, 128 + cp mod 64]"
  have u: "utf8 cp = ?bs" using assms by (simp add: utf8_def)
  have e: "cp div 262144 * 262144 + (cp div 4096) mod 64 * 4096 + (cp div 64) mod 64 * 64 + cp mod 64 = cp"
    using split_four[of cp] by simp
  have d: "utf8Decode ?bs = Some cp"
    using assms e by (simp add: isContinuation_def)
  have lo: "leadingOnes (240 + cp div 262144) = 4" using assms by (simp add: leadingOnes_def)
  show ?thesis
    unfolding u using assms d lo
    by (intro decode_pct_sequence) auto
qed

lemma decode_codepoint:
  assumes "cp < 1114112" "\<not> (55296 \<le> cp \<and> cp \<le> 57343)"
  shows "decodeURIComponent (concat (map pctLower (utf8 cp)) @ r) =
     (case decodeURIComponent r of Inl e \<Rightarrow> Inl e | Inr x \<Rightarrow> Inr (utf16 cp @ x))"
proof -
  consider "cp < 128" | "128 \<le> cp" "cp < 2048" | "2048 \<le> cp" "cp < 65536" | "65536 \<le> cp"
    by linarith
  then show ?thesis
  proof cases
    case 1
    then have "utf16 cp = [cp]" "utf8 cp = [cp]" by (simp_all add: utf8_def utf16_def)
    then show ?thesis using decode_pct_ascii[OF 1, of r] by (simp split: sum.splits)
  next
    case 2
    then show ?thesis by (rule utf8_two)
  next
    case 3
    then show ?thesis using assms(2) by (intro utf8_three) auto
  next
    case 4
    then show ?thesis using assms(1) by (intro utf8_four) auto
  qed
qed

lemma utf16_pair:
  assumes "isLeadSurrogate c" "isTrailSurrogate d"
  shows "utf16 ((c - 55296) * 1024 + (d - 56320) + 65536) = [c, d]"
proof -
  from assms have c: "55296 \<le> c" and d: "56320 \<le> d" "d - 56320 < 1024"
    by (auto simp: isLeadSurrogate_def isTrailSurrogate_def)
  have "((c - 55296) * 1024 + (d - 56320)) div 1024 = c - 55296"
    using d(2) by simp
  moreover have "((c - 55296) * 1024 + (d - 56320)) mod 1024 = d - 56320"
    using d(2) by simp
  ultimately show ?thesis using c d by (simp add: utf16_def)
qed

lemma decode_bytes:
  "wellFormedUtf16 s \<Longrightarrow> decodeURIComponent (concat (map pctLower (utf8Bytes s))) = Inr s"
proof (induction s rule: wellFormedUtf16.induct)
  case 1
  then show ?case by simp
next
  case (2 c)
  then have "c < 1114112" "\<not> (55296 \<le> c \<and> c \<le> 57343)"
    by (auto simp: isLeadSurrogate_def isTrailSurrogate_def)
  from decode_codepoint[OF this, of "[]"] 2 show ?case by (simp add: utf16_def)
next
  case (3 c d rest)
  show ?case
  proof (cases "isLeadSurrogate c")
    case True
    with 3 have t: "isTrailSurrogate d" and w: "wellFormedUtf16 rest" by auto
    let ?cp = "(c - 55296) * 1024 + (d - 56320) + 65536"
    have v: "?cp < 1114112" "\<not> (55296 \<le> ?cp \<and> ?cp \<le> 57343)"
      using pair_cp_bound[OF True t] by auto
    show ?thesis
      using decode_codepoint[OF v, of "concat (map pctLower (utf8Bytes rest))"]
        3(1)[OF True w] True utf16_pair[OF True t]
      by simp
  next
    case False
    with 3 have c: "c < 65536" "\<not> isTrailSurrogate c" and w: "wellFormedUtf16 (d # rest)" by auto
    have v: "c < 1114112" "\<not> (55296 \<le> c \<and> c \<le> 57343)"
      using c False by (auto simp: isLeadSurrogate_def isTrailSurrogate_def)
    show ?thesis
      using decode_codepoint[OF v, of "concat (map pctLower (utf8Bytes (d # rest)))"]
        3(2)[OF False w] False c
      by (simp add: utf16_def del: utf8Bytes.simps(3)) (simp add: utf16_def)
  qed
qed

lemma b64_round_trip:
  assumes "wellFormedUtf16 s"
  shows "b64EncodeUnicode s = Inr (btoaLoop (utf8Bytes s)) \<and>
         b64DecodeUnicode (btoaLoop (utf8Bytes s)) = Inr s"
proof -
  from encode_bytes[OF assms] obtain e where
    e: "encodeURIComponent s = Inr e" "toSolidBytes e = utf8Bytes s" by blast
  note b = utf8Bytes_bound[OF assms]
  from atob_btoa[OF b] e decode_bytes[OF assms] show ?thesis
    by (simp add: b64EncodeUnicode_def b64DecodeUnicode_def)
qed

section \<open>Evaluation of the codec on the concrete inputs\<close>

lemma questionText_units:
  "questionText = [123, 34, 104, 101, 97, 100, 101, 114, 115, 34, 58, 123, 34, 65, 34, 58,
     34, 63, 34, 125, 125]"
  by (simp add: questionText_def str_def)

lemma questionText_wellFormed: "wellFormedUtf16 questionText"
  unfolding questionText_units
  by (simp add: isLeadSurrogate_def isTrailSurrogate_def)

lemma questionText_token: "b64EncodeUnicode questionText = Inr questionToken"
proof -
  have a: "encodeURIComponent questionText =
      Inr (str ''%7B%22headers%22%3A%7B%22A%22%3A%22%3F%22%7D%7D'')"
    unfolding questionText_units
    by (simp add: isUnreserved_def isTrailSurrogate_def isLeadSurrogate_def utf8_def pctUpper_def
        hexUpper_def str_def)
  have b: "toSolidBytes (str ''%7B%22headers%22%3A%7B%22A%22%3A%22%3F%22%7D%7D'') = questionText"
    unfolding questionText_units by (simp add: str_def isUpperHex_def hexDigitVal_def)
  have c: "btoa questionText = Inr questionToken"
    unfolding questionText_units by (simp add: btoa_def b64char_def questionToken_def str_def)
  show ?thesis by (simp add: b64EncodeUnicode_def a b c)
qed

lemma questionToken_slash: "47 \<in> set questionToken"
  by (simp add: questionToken_def str_def)

lemma matchTamperUrl_slash:
  "matchTamperUrl [] (urlA @ str ''$TamperApi:'' @ questionToken) = None"
  by (simp add: urlA_def questionToken_def str_def isLineTerminator_def)

section \<open>Recognition of tagged urls, and the invariant under the listeners\<close>

lemma marker_head: "take 11 (c # cs) = str ''$TamperApi:'' \<Longrightarrow> c = 36"
  by (simp add: str_def)

lemma matchTamperUrl_no_marker: "36 \<notin> set xs \<Longrightarrow> matchTamperUrl p xs = None"
proof (induction xs arbitrary: p)
  case Nil
  then show ?case by simp
next
  case (Cons c cs)
  then have "c \<noteq> 36" "matchTamperUrl (p @ [c]) cs = None" by auto
  then show ?case using marker_head[of c cs] by auto
qed

lemma matchTamperUrl_tagged:
  assumes "\<forall>c \<in> set u. \<not> isLineTerminator c" "36 \<notin> set token" "47 \<notin> set token"
  shows "matchTamperUrl pre (u @ str ''$TamperApi:'' @ token) = Some (pre @ u, token)"
  using assms(1)
proof (induction u arbitrary: pre)
  case Nil
  have "matchTamperUrl (pre @ [36]) (str ''TamperApi:'' @ token) = None"
    using assms(2) by (intro matchTamperUrl_no_marker) (simp add: str_def)
  moreover have "str ''$TamperApi:'' @ token = 36 # str ''TamperApi:'' @ token"
    by (simp add: str_def)
  moreover have "take 11 (36 # str ''TamperApi:'' @ token) = str ''$TamperApi:''"
    "drop 11 (36 # str ''TamperApi:'' @ token) = token"
    by (simp_all add: str_def)
  ultimately show ?case using assms(3) by (simp add: isLineTerminator_def)
next
  case (Cons c u)
  then have "matchTamperUrl (pre @ [c]) (u @ str ''$TamperApi:'' @ token) = Some ((pre @ [c]) @ u, token)"
    by simp
  with Cons.prems show ?case by simp
qed

lemma btoaLoop_no_dollar: "\<forall>b \<in> set bs. b < 256 \<Longrightarrow> 36 \<notin> set (btoaLoop bs)"
proof -
  assume a: "\<forall>b \<in> set bs. b < 256"
  have p: "36 \<notin> set (paddingOf bs)"
    using paddingOf_cases[of bs] by auto
  have "36 \<notin> b64char ` set (sextetsOf bs)"
    using sextetsOf_bound[OF a] b64char_plain by (metis imageE)
  with p show ?thesis by (simp add: btoaLoop_eq)
qed

lemma tagged_url_recognized_without_slash:
  assumes "wellFormedUtf16 (stringify s)" "parse (stringify s) = Inr (Val s)"
    "\<forall>c \<in> set u. \<not> isLineTerminator c"
    "47 \<notin> set (btoaLoop (utf8Bytes (stringify s)))"
  shows "makeUrl stringify u s =
           Inr (u @ str ''$TamperApi:'' @ btoaLoop (utf8Bytes (stringify s))) \<and>
         onBeforeRequest parse st
           (d\<lparr>url := u @ str ''$TamperApi:'' @ btoaLoop (utf8Bytes (stringify s))\<rparr>) =
           (case normalizeTamperSpec (Val (s\<lparr>requestId := None\<rparr>)) of
              Inl e \<Rightarrow> (st, Inl e)
            | Inr n \<Rightarrow>
                (st\<lparr>data := AList.update (makeKey (tabId d) (frameId d) u)
                       (n\<lparr>key := Some (makeKey (tabId d) (frameId d) u)\<rparr>) (data st)\<rparr>,
                 Inr (Some u)))"
proof -
  let ?token = "btoaLoop (utf8Bytes (stringify s))"
  note rt = b64_round_trip[OF assms(1)]
  have m: "matchTamperUrl [] (u @ str ''$TamperApi:'' @ ?token) = Some (u, ?token)"
    using matchTamperUrl_tagged[OF assms(3) btoaLoop_no_dollar[OF utf8Bytes_bound[OF assms(1)]] assms(4), of "[]"]
    by simp
  have dc: "decodeReqModifyOpts parse ?token = Inr (Val s)"
    using rt assms(2) by (simp add: decodeReqModifyOpts_def)
  show ?thesis
    using rt m dc
    by (simp add: makeUrl_def onBeforeRequest_def set'_def setDirect_def deepClone_def
        assignProperty_plain isArrayIndex_makeKey split: sum.splits)
qed

lemma storeInv_onBeforeRequest: "storeInv st \<Longrightarrow> storeInv (fst (onBeforeRequest parse st d))"
  by (auto simp: onBeforeRequest_def set'_def
      split: option.splits sum.splits prod.splits field.splits
      intro: storeInv_setDirect)

lemma storeInv_onBeforeSendHeaders:
  "storeInv st \<Longrightarrow> storeInv (fst (onBeforeSendHeaders lc engine st d))"
  by (auto simp: onBeforeSendHeaders_def set'_def Let_def split: option.splits sum.splits
      intro: storeInv_setDirect)

lemma storeInv_onHeadersReceived:
  "storeInv st \<Longrightarrow> storeInv (fst (onHeadersReceived lc st d))"
  by (auto simp: onHeadersReceived_def set'_def Let_def
      split: option.splits sum.splits prod.splits field.splits
      intro: storeInv_setDirect storeInv_removeDirect)
section \<open>Evaluation of the redirected request\<close>

lemma twoPatternStore_eq:
  "twoPatternStore =
     \<lparr>data = [],
      patternMods =
        [\<lparr>regexes = Undefined, urls = Val [urlA], tamper = Val plainSpec\<rparr>,
         \<lparr>regexes = Undefined, urls = Val [urlB],
           tamper = Val (plainSpec\<lparr>opts := Val \<lparr>once = Some True\<rparr>\<rparr>)\<rparr>]\<rparr>"
proof -
  have n: "normalizeTamperSpec (Val (emptySpec\<lparr>opts := Val \<lparr>once = Some True\<rparr>\<rparr>)) =
      Inr (plainSpec\<lparr>opts := Val \<lparr>once = Some True\<rparr>\<rparr>)"
    by (simp add: normalizeTamperSpec_def emptySpec_def plainSpec_def defaultTo_def emptyMods_def
        doNormalize_def)
  show ?thesis
    by (simp add: twoPatternStore_def runOps_def addPattern_def TamperStore_def deepClone_def
        normalize_emptySpec n)
qed

lemma chainStore_eq:
  "chainStore =
     \<lparr>data = [(keyA, boundSpec\<lparr>key := Some keyA\<rparr>), (keyB, onceSpec\<lparr>key := Some keyB\<rparr>)],
      patternMods =
        [\<lparr>regexes = Undefined, urls = Val [urlA], tamper = Val plainSpec\<rparr>,
         \<lparr>regexes = Undefined, urls = Val [urlB],
           tamper = Val (plainSpec\<lparr>opts := Val \<lparr>once = Some True\<rparr>\<rparr>)\<rparr>]\<rparr>"
proof -
  let ?pats = "[\<lparr>regexes = Undefined, urls = Val [urlA], tamper = Val plainSpec\<rparr>,
         \<lparr>regexes = Undefined, urls = Val [urlB],
           tamper = Val (plainSpec\<lparr>opts := Val \<lparr>once = Some True\<rparr>\<rparr>)\<rparr>]"
  let ?s1 = "\<lparr>data = [(keyA, boundSpec\<lparr>key := Some keyA\<rparr>)], patternMods = ?pats\<rparr>"
  have g1: "get toyEngine twoPatternStore (tabId dSend) (frameId dSend) (url dSend) =
      Inr (Some plainSpec)"
    by (simp add: twoPatternStore_eq get_def getDirect_def scanPatternMods_def entryMatched_def
        deepClone_def dSend_def)
  have n1: "settled (plainSpec\<lparr>requestId := Some rid7\<rparr>)"
    using settled_examples(2) by (simp add: boundSpec_def)
  have h: "headers plainSpec = Val []" "remove plainSpec = Val []" by (simp_all add: plainSpec_def)
  have s1: "fst (onBeforeSendHeaders asciiLower toyEngine twoPatternStore dSend) = ?s1"
    unfolding onBeforeSendHeaders_def g1
    by (simp add: dSend_def set'_settled[OF n1] makeKey_urlA boundSpec_def twoPatternStore_eq
        Let_def h setHeaders_def removeHeaders_eq)
  have r1: "getByRequestId ?s1 (eventRequestId d307) = Some (boundSpec\<lparr>key := Some keyA\<rparr>)"
    by (simp add: getByRequestId_def deepClone_def d307_def boundSpec_def)
  have t1: "\<not> isRedirectStatus (statusCode d307)" by (simp add: d307_def isRedirectStatus_def)
  have o1: "\<not> onceSet (boundSpec\<lparr>key := Some keyA\<rparr>)"
    "opts (boundSpec\<lparr>key := Some keyA\<rparr>) = Val \<lparr>once = None\<rparr>"
    by (simp_all add: onceSet_def boundSpec_def plainSpec_def)
  have a1: "applyResponseMods asciiLower (boundSpec\<lparr>key := Some keyA\<rparr>) (responseHeaders d307) =
      Inr (responseHeaders d307, Some (responseHeaders d307))"
    unfolding applyResponseMods_eq
    by (simp add: boundSpec_def plainSpec_def responseModsRaise_def shadowsHasOwnProperty_def)
  have s2: "fst (onHeadersReceived asciiLower ?s1 d307) = ?s1"
    using onHeadersReceived_terminal[OF r1 t1 a1] o1 by simp
  have g3: "get toyEngine ?s1 (tabId (dSend\<lparr>url := urlB\<rparr>)) (frameId (dSend\<lparr>url := urlB\<rparr>))
       (url (dSend\<lparr>url := urlB\<rparr>)) = Inr (Some (plainSpec\<lparr>opts := Val \<lparr>once = Some True\<rparr>\<rparr>))"
    using urlA_neq_urlB keyA_neq_keyB
    by (simp add: get_def getDirect_def scanPatternMods_def entryMatched_def deepClone_def
        dSend_def makeKey_urlB)
  have n3: "settled (plainSpec\<lparr>opts := Val \<lparr>once = Some True\<rparr>, requestId := Some rid7\<rparr>)"
    using settled_examples(3) by (simp add: onceSpec_def)
  have s3: "fst (onBeforeSendHeaders asciiLower toyEngine ?s1 (dSend\<lparr>url := urlB\<rparr>)) =
      \<lparr>data = [(keyA, boundSpec\<lparr>key := Some keyA\<rparr>), (keyB, onceSpec\<lparr>key := Some keyB\<rparr>)],
       patternMods = ?pats\<rparr>"
    unfolding onBeforeSendHeaders_def g3
    using keyA_neq_keyB
    by (simp add: dSend_def set'_settled[OF n3] makeKey_urlB onceSpec_def Let_def h setHeaders_def
        removeHeaders_eq)
  show ?thesis
    unfolding chainStore_def s1 s2 s3 ..
qed

section \<open>Properties of the header transform\<close>

text \<open>
  C6 (amended). For a header list and a mapping \<^verbatim>\<open>toSet\<close> that has no entry of the name
  \<^verbatim>\<open>hasOwnProperty\<close>, \<^verbatim>\<open>setHeaders\<close> returns, and the entries of \<^verbatim>\<open>toSet\<close> are applied one after
  the other, each to the list the earlier ones left: an entry \<open>(k, v)\<close> gives the value \<open>v\<close>
  to every header whose name equals \<open>k\<close> ignoring case, which keeps its name and its place,
  and if there is none, it appends one header \<open>k: v\<close>. If moreover the names of \<^verbatim>\<open>toSet\<close>
  differ pairwise even when case is ignored, this is what the specification says, every
  entry judged against the list as given: the given headers keep their order, and the new
  ones follow in the order of \<^verbatim>\<open>toSet\<close>.
\<close>

theorem setHeaders_entries:
  "(\<not> shadowsHasOwnProperty toSet \<longrightarrow>
      setHeaders lc hdrs toSet = Inr (foldl (applyEntry lc) hdrs toSet)) \<and>
   (\<not> shadowsHasOwnProperty toSet \<and> distinct (map (\<lambda>kv. lc (fst kv)) toSet) \<longrightarrow>
      setHeaders lc hdrs toSet = Inr (setHeadersAsSpecified lc hdrs toSet))"
  using foldl_applyEntry_closed[of lc toSet hdrs]
  by (simp add: setHeaders_eq setHeadersAsSpecified_def)

theorem setHeaders_entries_witness:
  "\<not> shadowsHasOwnProperty [(str ''x-foo'', Some (str ''b''))] \<and>
   distinct (map (\<lambda>kv. asciiLower (fst kv)) [(str ''x-foo'', Some (str ''b''))]) \<and>
   setHeaders asciiLower [\<lparr>name = str ''X-Foo'', value = Some (str ''a'')\<rparr>]
     [(str ''x-foo'', Some (str ''b''))] =
   Inr [\<lparr>name = str ''X-Foo'', value = Some (str ''b'')\<rparr>]"
  using setHeaders_entries[of "[(str ''x-foo'', Some (str ''b''))]" asciiLower
      "[\<lparr>name = str ''X-Foo'', value = Some (str ''a'')\<rparr>]"]
  by (simp add: setHeadersAsSpecified_def overwriteBy_def newHeaders_def asciiLower_def str_def
      shadowsHasOwnProperty_def applyEntry_def overwrite_def)

theorem setHeaders_entries_counterexample:
  "setHeaders asciiLower []
     [(str ''X-Foo'', Some (str ''a'')), (str ''x-foo'', Some (str ''b''))] =
   Inr [\<lparr>name = str ''X-Foo'', value = Some (str ''b'')\<rparr>] \<and>
   setHeadersAsSpecified asciiLower []
     [(str ''X-Foo'', Some (str ''a'')), (str ''x-foo'', Some (str ''b''))] =
   [\<lparr>name = str ''X-Foo'', value = Some (str ''a'')\<rparr>,
    \<lparr>name = str ''x-foo'', value = Some (str ''b'')\<rparr>] \<and>
   setHeaders asciiLower [] [(str ''hasOwnProperty'', Some (str ''x''))] = Inl TypeError"
  by (simp add: setHeaders_eq shadowsHasOwnProperty_def applyEntry_def overwrite_def
      setHeadersAsSpecified_def newHeaders_def asciiLower_def str_def)

section \<open>Properties of the spec normalizer\<close>

text \<open>
  C7 (amended). \<^verbatim>\<open>_normalizeTamperSpec\<close> raises \<^verbatim>\<open>TypeError\<close> when its argument is \<^verbatim>\<open>null\<close>, when
  the \<^verbatim>\<open>response\<close> of the spec is \<^verbatim>\<open>null\<close>, and when a header whose value is \<^verbatim>\<open>null\<close> has to be
  moved to a \<^verbatim>\<open>remove\<close> that is \<^verbatim>\<open>null\<close>. On every other input, with any field missing, and
  for a missing argument, it returns the spec in which \<^verbatim>\<open>response\<close> is an object and each
  of \<^verbatim>\<open>headers\<close>, \<^verbatim>\<open>remove\<close>, \<^verbatim>\<open>response.headers\<close> and \<^verbatim>\<open>response.remove\<close> is \<^verbatim>\<open>null\<close> if it was
  \<^verbatim>\<open>null\<close>, is empty if it was missing and nothing was moved there, and else is the given
  one without the headers whose value is \<^verbatim>\<open>null\<close>, or with their names added. In
  particular, for a spec none of whose properties holds \<^verbatim>\<open>null\<close> in the place of an object
  or array the normalizer returns, the four fields are present, and every header name
  whose value in the input's \<^verbatim>\<open>headers\<close> (or \<^verbatim>\<open>response.headers\<close>) is \<^verbatim>\<open>null\<close> is in the result's
  \<^verbatim>\<open>remove\<close> (\<^verbatim>\<open>response.remove\<close>) and no longer a property of its \<^verbatim>\<open>headers\<close>
  (\<^verbatim>\<open>response.headers\<close>).
\<close>

theorem normalize_fills_and_migrates:
  "(normalizeRaises arg \<longrightarrow> normalizeTamperSpec arg = Inl TypeError) \<and>
   (\<not> normalizeRaises arg \<longrightarrow>
      (\<exists>ex rex.
         normalizeTamperSpec arg =
           Inr ((orElse arg emptySpec)
                  \<lparr>headers := headersAfter (headers (orElse arg emptySpec)),
                   remove := removeAfter (remove (orElse arg emptySpec)) ex,
                   response :=
                     Val \<lparr>headers = headersAfter
                                      (headers (orElse (response (orElse arg emptySpec)) emptyMods)),
                          remove = removeAfter
                                     (remove (orElse (response (orElse arg emptySpec)) emptyMods)) rex\<rparr>,
                   opts := defaultTo \<lparr>once = None\<rparr> (opts (orElse arg emptySpec))\<rparr>) \<and>
         set ex = {X. map_of (orElse (headers (orElse arg emptySpec)) []) X = Some None} \<and>
         set rex =
           {X. map_of (orElse (headers (orElse (response (orElse arg emptySpec)) emptyMods)) []) X =
               Some None})) \<and>
   (nullFree s \<longrightarrow>
      (\<exists>n hs rm rhs rrm.
         normalizeTamperSpec (Val s) = Inr n \<and>
         headers n = Val hs \<and> remove n = Val rm \<and>
         response n = Val \<lparr>headers = Val rhs, remove = Val rrm\<rparr> \<and>
         (\<forall>hs0 X. headers s = Val hs0 \<longrightarrow> map_of hs0 X = Some None \<longrightarrow>
            X \<in> set rm \<and> X \<notin> fst ` set hs) \<and>
         (\<forall>r0 rhs0 X. response s = Val r0 \<longrightarrow> headers r0 = Val rhs0 \<longrightarrow>
            map_of rhs0 X = Some None \<longrightarrow> X \<in> set rrm \<and> X \<notin> fst ` set rhs) \<and>
         (headers s = Undefined \<longrightarrow> hs = [] \<and> (remove s = Undefined \<longrightarrow> rm = [])) \<and>
         (response s = Undefined \<longrightarrow> rhs = [] \<and> rrm = [])))"
proof (intro conjI impI)
  assume "normalizeRaises arg"
  then show "normalizeTamperSpec arg = Inl TypeError" by (rule normalizeTamperSpec_raises)
next
  assume "\<not> normalizeRaises arg"
  from normalizeTamperSpec_returns[OF this]
  show "\<exists>ex rex.
         normalizeTamperSpec arg =
           Inr ((orElse arg emptySpec)
                  \<lparr>headers := headersAfter (headers (orElse arg emptySpec)),
                   remove := removeAfter (remove (orElse arg emptySpec)) ex,
                   response :=
                     Val \<lparr>headers = headersAfter
                                      (headers (orElse (response (orElse arg emptySpec)) emptyMods)),
                          remove = removeAfter
                                     (remove (orElse (response (orElse arg emptySpec)) emptyMods)) rex\<rparr>,
                   opts := defaultTo \<lparr>once = None\<rparr> (opts (orElse arg emptySpec))\<rparr>) \<and>
         set ex = {X. map_of (orElse (headers (orElse arg emptySpec)) []) X = Some None} \<and>
         set rex =
           {X. map_of (orElse (headers (orElse (response (orElse arg emptySpec)) emptyMods)) []) X =
               Some None}" .
next
  assume nf: "nullFree s"
  have notin: "X \<notin> fst ` set (dropNulls h)" if "map_of h X = Some None" for X h
    using that map_of_dropNulls[of h X] by (simp add: map_of_eq_None_iff)
  have nr: "\<not> normalizeRaises (Val s)"
    using nf nullFreeArg_returns[of "Val s"] by (simp add: nullFreeArg_def)
  define r0 where "r0 = orElse (response s) emptyMods"
  from normalizeTamperSpec_returns[OF nr] obtain ex rex where
    e: "normalizeTamperSpec (Val s) =
      Inr (s\<lparr>headers := headersAfter (headers s), remove := removeAfter (remove s) ex,
               response := Val \<lparr>headers = headersAfter (headers r0),
                                remove = removeAfter (remove r0) rex\<rparr>,
               opts := defaultTo \<lparr>once = None\<rparr> (opts s)\<rparr>)"
    and ex: "set ex = {n. map_of (orElse (headers s) []) n = Some None}"
    and rex: "set rex = {n. map_of (orElse (headers r0) []) n = Some None}"
    by (auto simp: r0_def)
  have nf0: "headers s \<noteq> Null" "remove s \<noteq> Null" "headers r0 \<noteq> Null" "remove r0 \<noteq> Null"
    using nf
    by (auto simp: nullFree_def nullFreeMods_def r0_def emptyMods_def split: field.splits)
  have ha: "headersAfter h = Val (dropNulls (orElse h []))" if "h \<noteq> Null" for h
    using that by (cases h) (simp_all add: headersAfter_def dropNulls_def)
  have ra: "removeAfter r x = Val (orElse r [] @ x)" if "r \<noteq> Null" for r x
    using that by (cases r) (simp_all add: removeAfter_def)
  have e0: "set x = {n. map_of [] n = Some None} \<Longrightarrow> x = []" for x :: "jsstring list"
    by simp
  show "\<exists>n hs rm rhs rrm.
         normalizeTamperSpec (Val s) = Inr n \<and>
         headers n = Val hs \<and> remove n = Val rm \<and>
         response n = Val \<lparr>headers = Val rhs, remove = Val rrm\<rparr> \<and>
         (\<forall>hs0 X. headers s = Val hs0 \<longrightarrow> map_of hs0 X = Some None \<longrightarrow>
            X \<in> set rm \<and> X \<notin> fst ` set hs) \<and>
         (\<forall>r0 rhs0 X. response s = Val r0 \<longrightarrow> headers r0 = Val rhs0 \<longrightarrow>
            map_of rhs0 X = Some None \<longrightarrow> X \<in> set rrm \<and> X \<notin> fst ` set rhs) \<and>
         (headers s = Undefined \<longrightarrow> hs = [] \<and> (remove s = Undefined \<longrightarrow> rm = [])) \<and>
         (response s = Undefined \<longrightarrow> rhs = [] \<and> rrm = [])"
    apply (rule exI[of _ "s\<lparr>headers := headersAfter (headers s), remove := removeAfter (remove s) ex,
               response := Val \<lparr>headers = headersAfter (headers r0),
                                remove = removeAfter (remove r0) rex\<rparr>,
               opts := defaultTo \<lparr>once = None\<rparr> (opts s)\<rparr>"])
    apply (rule exI[of _ "dropNulls (orElse (headers s) [])"])
    apply (rule exI[of _ "orElse (remove s) [] @ ex"])
    apply (rule exI[of _ "dropNulls (orElse (headers r0) [])"])
    apply (rule exI[of _ "orElse (remove r0) [] @ rex"])
    using e ex rex notin nf0
    by (auto simp: ha ra r0_def dropNulls_def emptyMods_def)
qed

theorem normalize_fills_and_migrates_witness:
  "normalizeTamperSpec Null = Inl TypeError \<and>
   normalizeTamperSpec (Val (emptySpec\<lparr>remove := Null\<rparr>)) = Inr (plainSpec\<lparr>remove := Null\<rparr>) \<and>
   (\<exists>n hs rm rhs rrm.
     normalizeTamperSpec (Val \<lparr>headers = Val [(str ''Origin'', None), (str ''Accept'', Some (str ''text/html''))],
         remove = Undefined, response = Val \<lparr>headers = Val [(str ''Via'', None)], remove = Undefined\<rparr>,
         opts = Undefined, requestId = None, key = None\<rparr>) = Inr n \<and>
     headers n = Val hs \<and> remove n = Val rm \<and>
     response n = Val \<lparr>headers = Val rhs, remove = Val rrm\<rparr> \<and>
     str ''Origin'' \<in> set rm \<and> str ''Origin'' \<notin> fst ` set hs \<and>
     str ''Via'' \<in> set rrm \<and> str ''Via'' \<notin> fst ` set rhs)"
proof (intro conjI)
  show "normalizeTamperSpec Null = Inl TypeError"
    using normalize_fills_and_migrates[of Null] by (simp add: normalizeRaises_def)
  have "\<not> normalizeRaises (Val (emptySpec\<lparr>remove := Null\<rparr>))"
    by (simp add: normalizeRaises_def pushFails_def emptySpec_def)
  with normalize_fills_and_migrates[of "Val (emptySpec\<lparr>remove := Null\<rparr>)"]
  obtain ex rex where
    "normalizeTamperSpec (Val (emptySpec\<lparr>remove := Null\<rparr>)) =
       Inr (emptySpec\<lparr>remove := Null, headers := headersAfter Undefined,
              remove := removeAfter Null ex,
              response := Val \<lparr>headers = headersAfter Undefined, remove = removeAfter Undefined rex\<rparr>,
              opts := defaultTo \<lparr>once = None\<rparr> Undefined\<rparr>)"
    "set ex = {}" "set rex = {}"
    by (auto simp: emptySpec_def emptyMods_def)
  then show "normalizeTamperSpec (Val (emptySpec\<lparr>remove := Null\<rparr>)) = Inr (plainSpec\<lparr>remove := Null\<rparr>)"
    by (simp add: emptySpec_def plainSpec_def headersAfter_def removeAfter_def defaultTo_def)
  have nf: "nullFree \<lparr>headers = Val [(str ''Origin'', None), (str ''Accept'', Some (str ''text/html''))],
         remove = Undefined, response = Val \<lparr>headers = Val [(str ''Via'', None)], remove = Undefined\<rparr>,
         opts = Undefined, requestId = None, key = None\<rparr>"
    by (simp add: nullFree_def nullFreeMods_def)
  show "\<exists>n hs rm rhs rrm.
     normalizeTamperSpec (Val \<lparr>headers = Val [(str ''Origin'', None), (str ''Accept'', Some (str ''text/html''))],
         remove = Undefined, response = Val \<lparr>headers = Val [(str ''Via'', None)], remove = Undefined\<rparr>,
         opts = Undefined, requestId = None, key = None\<rparr>) = Inr n \<and>
     headers n = Val hs \<and> remove n = Val rm \<and>
     response n = Val \<lparr>headers = Val rhs, remove = Val rrm\<rparr> \<and>
     str ''Origin'' \<in> set rm \<and> str ''Origin'' \<notin> fst ` set hs \<and>
     str ''Via'' \<in> set rrm \<and> str ''Via'' \<notin> fst ` set rhs"
    using normalize_fills_and_migrates[of Undefined "\<lparr>headers = Val [(str ''Origin'', None), (str ''Accept'', Some (str ''text/html''))],
         remove = Undefined, response = Val \<lparr>headers = Val [(str ''Via'', None)], remove = Undefined\<rparr>,
         opts = Undefined, requestId = None, key = None\<rparr>", THEN conjunct2, THEN conjunct2, THEN mp, OF nf]
    apply (elim exE conjE)
    subgoal for n hs rm rhs rrm
      apply (rule exI[of _ n], rule exI[of _ hs], rule exI[of _ rm], rule exI[of _ rhs], rule exI[of _ rrm])
      apply (simp add: str_def)
      done
    done
qed

theorem normalize_fills_and_migrates_counterexample:
  "normalizeTamperSpec (Val (emptySpec\<lparr>response := Null\<rparr>)) = Inl TypeError \<and>
   normalizeTamperSpec (Val (emptySpec\<lparr>headers := Null\<rparr>)) = Inr (plainSpec\<lparr>headers := Null\<rparr>) \<and>
   headers (plainSpec\<lparr>headers := Null\<rparr>) = Null"
  by (simp add: normalizeTamperSpec_def emptySpec_def plainSpec_def defaultTo_def emptyMods_def
      doNormalize_def)

text \<open>
  C8. Normalization is idempotent: wherever \<^verbatim>\<open>_normalizeTamperSpec\<close> returns, normalizing its
  result returns the result unchanged; and it returns on every input on which it does not
  raise \<^verbatim>\<open>TypeError\<close> for a \<^verbatim>\<open>null\<close>, in particular on every spec none of whose properties
  holds \<^verbatim>\<open>null\<close> in the place of an object or array, and on a missing argument.
\<close>

theorem normalize_idempotent:
  "(normalizeTamperSpec arg = Inr n \<longrightarrow> normalizeTamperSpec (Val n) = Inr n) \<and>
   (\<not> normalizeRaises arg \<longrightarrow>
      (\<exists>m. normalizeTamperSpec arg = Inr m \<and> normalizeTamperSpec (Val m) = Inr m)) \<and>
   (nullFreeArg arg \<and> arg \<noteq> Null \<longrightarrow>
      (\<exists>m. normalizeTamperSpec arg = Inr m \<and> normalizeTamperSpec (Val m) = Inr m))"
proof -
  have a: "normalizeTamperSpec (Val m) = Inr m" if "normalizeTamperSpec arg = Inr m" for arg m
    using normalizeTamperSpec_settled[OF that] by (simp add: normalizeTamperSpec_of_settled)
  have b: "\<exists>m. normalizeTamperSpec arg = Inr m" if "\<not> normalizeRaises arg"
    using normalizeTamperSpec_returns[OF that] by blast
  show ?thesis using a b nullFreeArg_returns[of arg] by blast
qed

theorem normalize_idempotent_witness:
  "normalizeTamperSpec (Val emptySpec) = Inr plainSpec \<and>
   normalizeTamperSpec (Val plainSpec) = Inr plainSpec \<and>
   \<not> normalizeRaises Undefined \<and>
   (\<exists>m. normalizeTamperSpec Undefined = Inr m \<and> normalizeTamperSpec (Val m) = Inr m) \<and>
   nullFreeArg (Val questionSpec) \<and>
   (\<exists>m. normalizeTamperSpec (Val questionSpec) = Inr m \<and> normalizeTamperSpec (Val m) = Inr m)"
proof -
  have e: "normalizeTamperSpec (Val emptySpec) = Inr plainSpec" by (rule normalize_emptySpec)
  have u: "\<not> normalizeRaises Undefined" by (simp add: normalizeRaises_def)
  have q: "nullFreeArg (Val questionSpec)"
    by (simp add: nullFreeArg_def nullFree_def nullFreeMods_def questionSpec_def emptySpec_def)
  from normalize_idempotent[of "Val emptySpec" plainSpec] e
  have 1: "normalizeTamperSpec (Val plainSpec) = Inr plainSpec" by blast
  from normalize_idempotent[of Undefined] u
  have 2: "\<exists>m. normalizeTamperSpec Undefined = Inr m \<and> normalizeTamperSpec (Val m) = Inr m"
    by blast
  from normalize_idempotent[of "Val questionSpec"] q
  have 3: "\<exists>m. normalizeTamperSpec (Val questionSpec) = Inr m \<and> normalizeTamperSpec (Val m) = Inr m"
    by blast
  from e 1 u 2 q 3 show ?thesis by blast
qed

section \<open>Properties of the tamper store\<close>




text \<open>
  C10 (amended). After any sequence of \<^verbatim>\<open>addPattern\<close>, \<^verbatim>\<open>set\<close>, \<^verbatim>\<open>setDirect\<close> and \<^verbatim>\<open>removeDirect\<close>
  from the empty store (\<^verbatim>\<open>setDirect\<close> not given the key \<^verbatim>\<open>__proto__\<close>), every spec in the direct
  map is normalized up to \<^verbatim>\<open>null\<close>: its \<^verbatim>\<open>response\<close> is an object, each of \<^verbatim>\<open>headers\<close>, \<^verbatim>\<open>remove\<close>,
  \<^verbatim>\<open>response.headers\<close>, \<^verbatim>\<open>response.remove\<close> and \<^verbatim>\<open>opts\<close> is present or \<^verbatim>\<open>null\<close>, and no header entry
  has the value \<^verbatim>\<open>null\<close>; its \<^verbatim>\<open>key\<close> is the key it is stored under; the \<^verbatim>\<open>tamper\<close> of every
  pattern entry is normalized up to \<^verbatim>\<open>null\<close>; and so is every spec that \<^verbatim>\<open>get\<close> or
  \<^verbatim>\<open>getByRequestId\<close> returns. If none of the specs given to the operations holds \<^verbatim>\<open>null\<close> in the
  place of an object or array, all these specs are normalized: the five properties are
  present.
\<close>

theorem store_normalization_invariant:
  assumes "list_all plainKeyOp ops"
  shows
  "storeInv (runOps ops) \<and>
   (\<forall>k s. (k, s) \<in> set (data (runOps ops)) \<longrightarrow> settled s \<and> key s = Some k) \<and>
   (\<forall>e \<in> set (patternMods (runOps ops)). \<exists>t. tamper e = Val t \<and> settled t) \<and>
   (\<forall>engine t f u s. get engine (runOps ops) t f u = Inr (Some s) \<longrightarrow> settled s) \<and>
   (\<forall>rid s. getByRequestId (runOps ops) rid = Some s \<longrightarrow> settled s) \<and>
   (list_all nullFreeOp ops \<longrightarrow>
      (\<forall>k s. (k, s) \<in> set (data (runOps ops)) \<longrightarrow> normalized s) \<and>
      (\<forall>e \<in> set (patternMods (runOps ops)). \<exists>t. tamper e = Val t \<and> normalized t) \<and>
      (\<forall>engine t f u s. get engine (runOps ops) t f u = Inr (Some s) \<longrightarrow> normalized s) \<and>
      (\<forall>rid s. getByRequestId (runOps ops) rid = Some s \<longrightarrow> normalized s))"
proof -
  have inv: "storeInv (runOps ops)" by (rule storeInv_runOps)
  have src: "(\<exists>k. (k, s) \<in> set (data (runOps ops))) \<or>
             (\<exists>e \<in> set (patternMods (runOps ops)). tamper e = Val s)"
    if "get engine (runOps ops) t f u = Inr (Some s)" for engine t f u s
  proof (cases "map_of (data (runOps ops)) (makeKey t f u)")
    case None
    with that have "scanPatternMods engine (runOps ops) u = Inr (Some s)"
      by (simp add: get_patterns)
    then show ?thesis using scanPatternMods_mem by blast
  next
    case (Some s')
    with that have "s' = s" by (simp add: get_direct)
    with Some show ?thesis by (auto dest: map_of_SomeD)
  qed
  have byId: "\<exists>k. (k, s) \<in> set (data (runOps ops))"
    if "getByRequestId (runOps ops) rid = Some s" for rid s
    using that by (auto simp: getByRequestId_def dest!: getByRequestIdLoop_mem)
  have d: "settled s \<and> key s = Some k" if "(k, s) \<in> set (data (runOps ops))" for k s
    using inv that by (rule storeInv_direct)
  have p: "\<exists>t. tamper e = Val t \<and> settled t" if "e \<in> set (patternMods (runOps ops))" for e
    using inv that by (rule storeInv_pattern)
  have g: "settled s" if "get engine (runOps ops) t f u = Inr (Some s)" for engine t f u s
    using src[OF that] d p by fastforce
  have r: "settled s" if "getByRequestId (runOps ops) rid = Some s" for rid s
    using byId[OF that] d by blast
  have full: "(\<forall>k s. (k, s) \<in> set (data (runOps ops)) \<longrightarrow> normalized s) \<and>
      (\<forall>e \<in> set (patternMods (runOps ops)). \<exists>t. tamper e = Val t \<and> normalized t) \<and>
      (\<forall>engine t f u s. get engine (runOps ops) t f u = Inr (Some s) \<longrightarrow> normalized s) \<and>
      (\<forall>rid s. getByRequestId (runOps ops) rid = Some s \<longrightarrow> normalized s)"
    if nf: "list_all nullFreeOp ops"
  proof -
    note an = allNormalized_runOps[OF nf]
    have nd: "normalized s" if "(k, s) \<in> set (data (runOps ops))" for k s
      using an that by (rule allNormalized_direct)
    have np: "\<exists>t. tamper e = Val t \<and> normalized t" if "e \<in> set (patternMods (runOps ops))" for e
      using an that by (rule allNormalized_pattern)
    have ng: "normalized s" if "get engine (runOps ops) t f u = Inr (Some s)" for engine t f u s
      using src[OF that] nd np by fastforce
    have nr: "normalized s" if "getByRequestId (runOps ops) rid = Some s" for rid s
      using byId[OF that] nd by blast
    show ?thesis using nd np ng nr by blast
  qed
  show ?thesis using inv d p g r full by blast
qed

theorem store_normalization_invariant_witness:
  "list_all plainKeyOp exampleOps \<and> list_all nullFreeOp exampleOps \<and>
   storeInv (runOps exampleOps) \<and>
   get toyEngine (runOps exampleOps) 1 0 urlB =
     Inr (Some (plainSpec\<lparr>key := Some (str ''1::0::'' @ urlB)\<rparr>)) \<and>
   settled (plainSpec\<lparr>key := Some (str ''1::0::'' @ urlB)\<rparr>) \<and>
   normalized (plainSpec\<lparr>key := Some (str ''1::0::'' @ urlB)\<rparr>) \<and>
   (str ''1::0::'' @ urlB, plainSpec\<lparr>key := Some (str ''1::0::'' @ urlB)\<rparr>)
      \<in> set (data (runOps exampleOps))"
proof -
  have k: "list_all plainKeyOp exampleOps" by (simp add: exampleOps_def)
  have n: "list_all nullFreeOp exampleOps"
    by (simp add: exampleOps_def nullFreeArg_def nullFree_def nullFreeMods_def emptySpec_def)
  have g: "get toyEngine (runOps exampleOps) 1 0 urlB =
     Inr (Some (plainSpec\<lparr>key := Some (str ''1::0::'' @ urlB)\<rparr>))"
    by (simp add: runOps_exampleOps get_def getDirect_def deepClone_def makeKey_1_0)
  have m: "(str ''1::0::'' @ urlB, plainSpec\<lparr>key := Some (str ''1::0::'' @ urlB)\<rparr>)
      \<in> set (data (runOps exampleOps))"
    by (simp add: runOps_exampleOps)
  from store_normalization_invariant[OF k] n g m show ?thesis using k by blast
qed

theorem store_normalization_invariant_counterexample:
  "runOps [Set 1 0 urlA (Val (emptySpec\<lparr>headers := Null\<rparr>))] =
     \<lparr>data = [(keyA, plainSpec\<lparr>headers := Null, key := Some keyA\<rparr>)], patternMods = []\<rparr> \<and>
   get toyEngine (runOps [Set 1 0 urlA (Val (emptySpec\<lparr>headers := Null\<rparr>))]) 1 0 urlA =
     Inr (Some (plainSpec\<lparr>headers := Null, key := Some keyA\<rparr>)) \<and>
   headers (plainSpec\<lparr>headers := Null, key := Some keyA\<rparr>) = Null \<and>
   \<not> normalized (plainSpec\<lparr>headers := Null, key := Some keyA\<rparr>)"
proof -
  have n: "normalizeTamperSpec (Val (emptySpec\<lparr>headers := Null\<rparr>)) = Inr (plainSpec\<lparr>headers := Null\<rparr>)"
    by (simp add: normalizeTamperSpec_def emptySpec_def plainSpec_def defaultTo_def emptyMods_def
      doNormalize_def)
  have r: "runOps [Set 1 0 urlA (Val (emptySpec\<lparr>headers := Null\<rparr>))] =
     \<lparr>data = [(keyA, plainSpec\<lparr>headers := Null, key := Some keyA\<rparr>)], patternMods = []\<rparr>"
    by (simp add: runOps_def set'_def setDirect_def deepClone_def n TamperStore_def makeKey_urlA
        assignProperty_plain[OF isArrayIndex_makeKey[of 1 0 urlA, unfolded makeKey_urlA]])
  show ?thesis
    unfolding r
    by (simp add: get_def getDirect_def deepClone_def makeKey_urlA normalized_def
        normalizedMods_def)
qed

section \<open>Properties of the response listener\<close>

text \<open>
  The terminal branch of \<^verbatim>\<open>onHeadersReceived\<close> on the spec that \<^verbatim>\<open>getByRequestId\<close> finds, the
  first spec of the direct map whose \<^verbatim>\<open>requestId\<close> is the identifier of the event: if
  \<^verbatim>\<open>opts.once\<close> of that spec is set it is deleted, and the specs bound to the identifier
  afterwards are the further ones that were bound to it; if not, the store is unchanged.
\<close>

lemma terminal_response_first_bound:
  assumes "storeInv st" "boundTo st rid = spec # others" "eventRequestId d = rid"
    "\<not> isRedirectStatus (statusCode d)"
    "applyResponseMods lc spec (responseHeaders d) = Inr (dh, rh)" "opts spec = Val os"
  shows "map_of (data st) (keyOf spec) = Some spec \<and>
    onHeadersReceived lc st d =
      ((if onceSet spec then removeDirect st (keyOf spec) else st), Inr rh) \<and>
    (onceSet spec \<longrightarrow>
       getDirect (fst (onHeadersReceived lc st d)) (keyOf spec) = None \<and>
       boundTo (fst (onHeadersReceived lc st d)) rid = others \<and>
       (others = [] \<longrightarrow> getByRequestId (fst (onHeadersReceived lc st d)) rid = None)) \<and>
    (\<not> onceSet spec \<longrightarrow>
       fst (onHeadersReceived lc st d) = st \<and>
       getByRequestId (fst (onHeadersReceived lc st d)) rid = Some spec)"
proof -
  have g: "getByRequestId st (eventRequestId d) = Some spec"
    using assms(2,3) by (simp add: getByRequestId_boundTo)
  have r: "onHeadersReceived lc st d =
      ((if onceSet spec then removeDirect st (keyOf spec) else st), Inr rh)"
    using onHeadersReceived_terminal[OF g assms(4,5)] assms(6) by simp
  from getByRequestId_stored[OF assms(1) g] have m: "map_of (data st) (keyOf spec) = Some spec"
    by auto
  have d1: "getDirect (removeDirect st (keyOf spec)) (keyOf spec) = None"
    by (simp add: getDirect_def removeDirect_def map_of_delete_same)
  have d2: "boundTo (removeDirect st (keyOf spec)) rid = others"
    using boundTo_removeDirect[OF assms(1,2)] .
  have d3: "others = [] \<longrightarrow> getByRequestId (removeDirect st (keyOf spec)) rid = None"
    using d2 by (simp add: getByRequestId_boundTo)
  show ?thesis using r m d1 d2 d3 g assms(3) by simp
qed

text \<open>
  C5 (the code departs from the claim). Two patterns are registered: one for \<^verbatim>\<open>http://a\<close>,
  and a one-shot one, \<^verbatim>\<open>opts.once\<close> set, for \<^verbatim>\<open>http://b\<close>. Request 7 goes to \<^verbatim>\<open>http://a\<close> and is
  answered with status 307 and \<^verbatim>\<open>Location: http://b\<close>, which the listener takes for a
  terminal response; the browser follows the redirect and sends the request headers of
  request 7 for \<^verbatim>\<open>http://b\<close>. Now the store holds two specs bound to request 7, the first
  without \<^verbatim>\<open>opts.once\<close> and the second, under the key of \<^verbatim>\<open>http://b\<close>, with it. When the
  terminal response 200 of request 7 arrives, \<^verbatim>\<open>onHeadersReceived\<close> finds the first spec,
  raises nothing and leaves the store unchanged: the one-shot spec that matched is still
  stored, and a lookup by the request identifier still finds a spec.
\<close>

theorem one_shot_spec_survives_redirect_chain:
  "chainStore =
     \<lparr>data = [(keyA, boundSpec\<lparr>key := Some keyA\<rparr>), (keyB, onceSpec\<lparr>key := Some keyB\<rparr>)],
      patternMods =
        [\<lparr>regexes = Undefined, urls = Val [urlA], tamper = Val plainSpec\<rparr>,
         \<lparr>regexes = Undefined, urls = Val [urlB],
           tamper = Val (plainSpec\<lparr>opts := Val \<lparr>once = Some True\<rparr>\<rparr>)\<rparr>]\<rparr> \<and>
   requestId (onceSpec\<lparr>key := Some keyB\<rparr>) = Some (eventRequestId (dOk\<lparr>url := urlB\<rparr>)) \<and>
   onceSet (onceSpec\<lparr>key := Some keyB\<rparr>) \<and>
   \<not> isRedirectStatus (statusCode (dOk\<lparr>url := urlB\<rparr>)) \<and>
   onHeadersReceived asciiLower chainStore (dOk\<lparr>url := urlB\<rparr>) = (chainStore, Inr (Some [])) \<and>
   getDirect chainStore keyB = Some (onceSpec\<lparr>key := Some keyB\<rparr>) \<and>
   getByRequestId chainStore (eventRequestId (dOk\<lparr>url := urlB\<rparr>)) =
     Some (boundSpec\<lparr>key := Some keyA\<rparr>)"
proof -
  let ?d = "dOk\<lparr>url := urlB\<rparr>"
  have r: "getByRequestId chainStore (eventRequestId ?d) = Some (boundSpec\<lparr>key := Some keyA\<rparr>)"
    by (simp add: chainStore_eq getByRequestId_def deepClone_def dOk_def boundSpec_def)
  have t: "\<not> isRedirectStatus (statusCode ?d)" by (simp add: dOk_def isRedirectStatus_def)
  have o: "\<not> onceSet (boundSpec\<lparr>key := Some keyA\<rparr>)"
    "opts (boundSpec\<lparr>key := Some keyA\<rparr>) = Val \<lparr>once = None\<rparr>"
    by (simp_all add: onceSet_def boundSpec_def plainSpec_def)
  have a: "applyResponseMods asciiLower (boundSpec\<lparr>key := Some keyA\<rparr>) (responseHeaders ?d) =
      Inr ([], Some [])"
    unfolding applyResponseMods_eq
    by (simp add: boundSpec_def plainSpec_def responseModsRaise_def shadowsHasOwnProperty_def
        dOk_def)
  have s: "onHeadersReceived asciiLower chainStore ?d = (chainStore, Inr (Some []))"
    using onHeadersReceived_terminal[OF r t a] o by simp
  have g: "getDirect chainStore keyB = Some (onceSpec\<lparr>key := Some keyB\<rparr>)"
    using keyA_neq_keyB by (simp add: chainStore_eq getDirect_def deepClone_def)
  have b: "requestId (onceSpec\<lparr>key := Some keyB\<rparr>) = Some (eventRequestId ?d)"
    "onceSet (onceSpec\<lparr>key := Some keyB\<rparr>)"
    by (simp_all add: onceSpec_def dOk_def onceSet_def)
  from chainStore_eq s g b t r show ?thesis by blast
qed

text \<open>
  C9 (amended). When \<^verbatim>\<open>onHeadersReceived\<close> finds the spec of the request, the status is 301
  or 302 and the response headers, after the spec's response-phase \<^verbatim>\<open>setHeaders\<close> and
  \<^verbatim>\<open>removeHeaders\<close> were applied to them, hold no \<^verbatim>\<open>Location\<close> header, the listener raises
  the error of \<^verbatim>\<open>checkIfRedirect\<close>, returns no headers and leaves the store unchanged. When
  the response as received has no \<^verbatim>\<open>Location\<close> header and the spec's response-phase changes
  neither set nor remove one, the listener raises, returns no headers and leaves the store
  unchanged: it raises the error of \<^verbatim>\<open>checkIfRedirect\<close>, unless the response-phase
  \<^verbatim>\<open>setHeaders\<close> raises before, which it does with \<^verbatim>\<open>TypeError\<close> when \<^verbatim>\<open>response.headers\<close> has an
  entry of the name \<^verbatim>\<open>hasOwnProperty\<close>.
\<close>

theorem redirect_without_location_raises:
  assumes "getByRequestId st (eventRequestId d) = Some spec" "isRedirectStatus (statusCode d)"
  shows
    "(applyResponseMods lc spec (responseHeaders d) = Inr (dh, rh) \<and>
      getHeader lc dh (str ''Location'') = None \<longrightarrow>
        onHeadersReceived lc st d =
          (st, Inl (Error ''tamperApi::checkIfRedirect: found 301 status but no location header.''))) \<and>
     (getHeader lc (responseHeaders d) (str ''Location'') = None \<and> \<not> touchesLocation lc spec \<longrightarrow>
        onHeadersReceived lc st d =
          (st, Inl (if responseModsRaise spec then TypeError
                    else Error ''tamperApi::checkIfRedirect: found 301 status but no location header.'')))"
proof (intro conjI impI)
  assume "applyResponseMods lc spec (responseHeaders d) = Inr (dh, rh) \<and>
      getHeader lc dh (str ''Location'') = None"
  then show "onHeadersReceived lc st d =
          (st, Inl (Error ''tamperApi::checkIfRedirect: found 301 status but no location header.''))"
    using onHeadersReceived_malformed[OF assms, of lc dh rh] by simp
next
  assume a: "getHeader lc (responseHeaders d) (str ''Location'') = None \<and> \<not> touchesLocation lc spec"
  show "onHeadersReceived lc st d =
          (st, Inl (if responseModsRaise spec then TypeError
                    else Error ''tamperApi::checkIfRedirect: found 301 status but no location header.''))"
  proof (cases "responseModsRaise spec")
    case True
    then show ?thesis using onHeadersReceived_raises[OF assms(1)] by simp
  next
    case False
    from applyResponseMods_returns[OF False, of lc "responseHeaders d"] obtain dh' rh' where
      m: "applyResponseMods lc spec (responseHeaders d) = Inr (dh', rh')" by blast
    with a have "getHeader lc dh' (str ''Location'') = None"
      using getHeader_untouched[of lc spec "responseHeaders d" dh' rh'] by simp
    with False show ?thesis using onHeadersReceived_malformed[OF assms m] by simp
  qed
qed

theorem redirect_without_location_raises_witness:
  "getByRequestId (storeWith boundSpec) (eventRequestId dBareRedirect) =
     Some (boundSpec\<lparr>key := Some keyA\<rparr>) \<and>
   isRedirectStatus (statusCode dBareRedirect) \<and>
   getHeader asciiLower (responseHeaders dBareRedirect) (str ''Location'') = None \<and>
   onHeadersReceived asciiLower (storeWith boundSpec) dBareRedirect =
     (storeWith boundSpec,
      Inl (Error ''tamperApi::checkIfRedirect: found 301 status but no location header.''))"
proof -
  have g: "getByRequestId (storeWith boundSpec) (eventRequestId dBareRedirect) =
     Some (boundSpec\<lparr>key := Some keyA\<rparr>)"
    using getByRequestId_storeWith[OF settled_examples(2)]
    by (simp add: dBareRedirect_def boundSpec_def)
  have r: "isRedirectStatus (statusCode dBareRedirect)"
    by (simp add: dBareRedirect_def isRedirectStatus_def)
  have h: "getHeader asciiLower (responseHeaders dBareRedirect) (str ''Location'') = None"
    by (simp add: dBareRedirect_def)
  have t: "\<not> touchesLocation asciiLower (boundSpec\<lparr>key := Some keyA\<rparr>)"
    by (simp add: touchesLocation_def boundSpec_def plainSpec_def)
  have n: "\<not> responseModsRaise (boundSpec\<lparr>key := Some keyA\<rparr>)"
    by (simp add: responseModsRaise_def shadowsHasOwnProperty_def boundSpec_def plainSpec_def)
  from redirect_without_location_raises[OF g r, of asciiLower] h t n
  have "onHeadersReceived asciiLower (storeWith boundSpec) dBareRedirect =
     (storeWith boundSpec,
      Inl (Error ''tamperApi::checkIfRedirect: found 301 status but no location header.''))"
    by simp
  with g r h show ?thesis by blast
qed

theorem redirect_without_location_raises_counterexample:
  "getByRequestId (storeWith locationSpec) (eventRequestId dBareRedirect) =
     Some (locationSpec\<lparr>key := Some keyA\<rparr>) \<and>
   isRedirectStatus (statusCode dBareRedirect) \<and>
   getHeader asciiLower (responseHeaders dBareRedirect) (str ''Location'') = None \<and>
   onHeadersReceived asciiLower (storeWith locationSpec) dBareRedirect =
     (\<lparr>data = [(keyB, locationSpec\<lparr>key := Some keyB\<rparr>)], patternMods = []\<rparr>,
      Inr (Some [\<lparr>name = str ''Location'', value = Some urlB\<rparr>]))"
proof -
  have g: "getByRequestId (storeWith locationSpec) (eventRequestId dBareRedirect) =
     Some (locationSpec\<lparr>key := Some keyA\<rparr>)"
    using getByRequestId_storeWith[OF settled_examples(4)]
    by (simp add: dBareRedirect_def locationSpec_def)
  have r: "isRedirectStatus (statusCode dBareRedirect)"
    by (simp add: dBareRedirect_def isRedirectStatus_def)
  have h: "getHeader asciiLower (responseHeaders dBareRedirect) (str ''Location'') = None"
    by (simp add: dBareRedirect_def)
  have i: "storeInv (storeWith locationSpec)" by (simp add: storeWith_def storeInv_runOps)
  have a: "applyResponseMods asciiLower (locationSpec\<lparr>key := Some keyA\<rparr>)
      (responseHeaders dBareRedirect) =
      Inr ([\<lparr>name = str ''Location'', value = Some urlB\<rparr>],
           Some [\<lparr>name = str ''Location'', value = Some urlB\<rparr>])"
    by (simp add: dBareRedirect_def applyResponseMods_locationSpec)
  have l: "getHeader asciiLower [\<lparr>name = str ''Location'', value = Some urlB\<rparr>] (str ''Location'') =
      Some urlB"
    by simp
  have "onHeadersReceived asciiLower (storeWith locationSpec) dBareRedirect =
     (\<lparr>data = [(keyB, locationSpec\<lparr>key := Some keyB\<rparr>)], patternMods = []\<rparr>,
      Inr (Some [\<lparr>name = str ''Location'', value = Some urlB\<rparr>]))"
    unfolding onHeadersReceived_redirect[OF i g r a l]
    by (simp add: dBareRedirect_def makeKey_urlB keyOf_def storeWith_eq[OF settled_examples(4)])
  with g r h show ?thesis by blast
qed

text \<open>
  C2 (amended). Let the store satisfy its invariant, let \<^verbatim>\<open>getByRequestId\<close> find for the
  request a spec stored under the composite key of the event's tab and frame and \<open>uA\<close>, let
  the status be 301 or 302 and let the response headers, after the spec's response-phase
  changes were applied (\<^verbatim>\<open>setHeaders\<close> not raising), name \<open>uB\<close> in their \<^verbatim>\<open>Location\<close> header
  (for a spec that neither sets nor removes \<^verbatim>\<open>Location\<close>: the response as received names
  \<open>uB\<close>). Then \<^verbatim>\<open>onHeadersReceived\<close> raises
  nothing and leaves the pattern list as it was; afterwards the spec, its \<^verbatim>\<open>key\<close> now the
  composite key of \<open>uB\<close>, is stored under that key and is what \<^verbatim>\<open>get\<close> returns for \<open>uB\<close>; and
  if \<open>uB\<close> differs from \<open>uA\<close>, the direct map has no entry under the key of \<open>uA\<close>, so that
  \<^verbatim>\<open>get\<close> for \<open>uA\<close> is the result of scanning the patterns: no match if there is no
  pattern.
\<close>

theorem redirect_rekeys:
  assumes "storeInv st" "getByRequestId st (eventRequestId d) = Some spec"
    "key spec = Some (makeKey (tabId d) (frameId d) uA)"
    "isRedirectStatus (statusCode d)"
    "applyResponseMods lc spec (responseHeaders d) = Inr (dh, rh)"
    "getHeader lc dh (str ''Location'') = Some uB
     \<or> (getHeader lc (responseHeaders d) (str ''Location'') = Some uB \<and> \<not> touchesLocation lc spec)"
  shows
    "snd (onHeadersReceived lc st d) = Inr rh \<and>
     patternMods (fst (onHeadersReceived lc st d)) = patternMods st \<and>
     getDirect st (makeKey (tabId d) (frameId d) uA) = Some spec \<and>
     getDirect (fst (onHeadersReceived lc st d)) (makeKey (tabId d) (frameId d) uB) =
       Some (spec\<lparr>key := Some (makeKey (tabId d) (frameId d) uB)\<rparr>) \<and>
     get engine (fst (onHeadersReceived lc st d)) (tabId d) (frameId d) uB =
       Inr (Some (spec\<lparr>key := Some (makeKey (tabId d) (frameId d) uB)\<rparr>)) \<and>
     (uA \<noteq> uB \<longrightarrow>
        getDirect (fst (onHeadersReceived lc st d)) (makeKey (tabId d) (frameId d) uA) = None \<and>
        get engine (fst (onHeadersReceived lc st d)) (tabId d) (frameId d) uA =
          scanPatternMods engine st uA) \<and>
     (uA \<noteq> uB \<and> patternMods st = [] \<longrightarrow>
        get engine (fst (onHeadersReceived lc st d)) (tabId d) (frameId d) uA = Inr None)"
proof -
  let ?kA = "makeKey (tabId d) (frameId d) uA" and ?kB = "makeKey (tabId d) (frameId d) uB"
  let ?st' = "st\<lparr>data := AList.update ?kB (spec\<lparr>key := Some ?kB\<rparr>) (AList.delete ?kA (data st))\<rparr>"
  from assms(6) have loc: "getHeader lc dh (str ''Location'') = Some uB"
    using getHeader_untouched[OF _ assms(5)] by auto
  from getByRequestId_stored[OF assms(1,2)] assms(3) have k: "keyOf spec = ?kA"
    and m: "map_of (data st) ?kA = Some spec" by auto
  have r: "onHeadersReceived lc st d = (?st', Inr rh)"
    using onHeadersReceived_redirect[OF assms(1,2,4,5) loc] k by simp
  have dB: "map_of (data ?st') ?kB = Some (spec\<lparr>key := Some ?kB\<rparr>)"
    by (simp add: update_conv')
  have dA: "map_of (data ?st') ?kA = None" if "uA \<noteq> uB"
    using that by (simp add: update_conv' makeKey_inj map_of_delete_same)
  have sc: "scanPatternMods engine ?st' u = scanPatternMods engine st u" for u
    by (simp add: scanPatternMods_def)
  have nil: "scanPatternMods engine st uA = Inr None" if "patternMods st = []"
    using that by (simp add: scanPatternMods_def)
  show ?thesis
    unfolding r
    using m dB dA sc nil
    by (simp add: getDirect_def deepClone_def get_direct get_patterns)
qed

theorem redirect_rekeys_witness:
  "getDirect (storeWith boundSpec) keyA = Some (boundSpec\<lparr>key := Some keyA\<rparr>) \<and>
   getDirect (fst (onHeadersReceived asciiLower (storeWith boundSpec) dRedirect)) keyB =
     Some (boundSpec\<lparr>key := Some keyB\<rparr>) \<and>
   get toyEngine (fst (onHeadersReceived asciiLower (storeWith boundSpec) dRedirect)) 1 0 urlB =
     Inr (Some (boundSpec\<lparr>key := Some keyB\<rparr>)) \<and>
   getDirect (fst (onHeadersReceived asciiLower (storeWith boundSpec) dRedirect)) keyA = None \<and>
   get toyEngine (fst (onHeadersReceived asciiLower (storeWith boundSpec) dRedirect)) 1 0 urlA =
     Inr None"
proof -
  let ?spec = "boundSpec\<lparr>key := Some keyA\<rparr>"
  have i: "storeInv (storeWith boundSpec)" by (simp add: storeWith_def storeInv_runOps)
  have g: "getByRequestId (storeWith boundSpec) (eventRequestId dRedirect) = Some ?spec"
    using getByRequestId_storeWith[OF settled_examples(2)]
    by (simp add: dRedirect_def boundSpec_def)
  have a: "applyResponseMods asciiLower ?spec (responseHeaders dRedirect) =
      Inr (responseHeaders dRedirect, Some (responseHeaders dRedirect))"
    unfolding applyResponseMods_eq
    by (simp add: boundSpec_def plainSpec_def responseModsRaise_def shadowsHasOwnProperty_def)
  have k: "key ?spec = Some (makeKey (tabId dRedirect) (frameId dRedirect) urlA)"
    by (simp add: dRedirect_def makeKey_urlA)
  have r: "isRedirectStatus (statusCode dRedirect)"
    by (simp add: dRedirect_def isRedirectStatus_def)
  have t: "\<not> touchesLocation asciiLower ?spec"
    by (simp add: touchesLocation_def boundSpec_def plainSpec_def)
  have h: "getHeader asciiLower (responseHeaders dRedirect) (str ''Location'') = Some urlB"
    by (simp add: dRedirect_def)
  have p: "patternMods (storeWith boundSpec) = []"
    by (simp add: storeWith_eq[OF settled_examples(2)])
  have e: "tabId dRedirect = 1" "frameId dRedirect = 0" by (simp_all add: dRedirect_def)
  from redirect_rekeys[OF i g k r a, of urlB toyEngine] h t p urlA_neq_urlB
  have "getDirect (storeWith boundSpec) keyA = Some ?spec \<and>
   getDirect (fst (onHeadersReceived asciiLower (storeWith boundSpec) dRedirect)) keyB =
     Some (?spec\<lparr>key := Some keyB\<rparr>) \<and>
   get toyEngine (fst (onHeadersReceived asciiLower (storeWith boundSpec) dRedirect)) 1 0 urlB =
     Inr (Some (?spec\<lparr>key := Some keyB\<rparr>)) \<and>
   getDirect (fst (onHeadersReceived asciiLower (storeWith boundSpec) dRedirect)) keyA = None \<and>
   get toyEngine (fst (onHeadersReceived asciiLower (storeWith boundSpec) dRedirect)) 1 0 urlA =
     Inr None"
    unfolding e makeKey_urlA makeKey_urlB by blast
  then show ?thesis by simp
qed

theorem redirect_rekeys_counterexample:
  "getDirect sentStore (makeKey 1 0 urlA) = Some (boundSpec\<lparr>key := Some keyA\<rparr>) \<and>
   getByRequestId sentStore rid7 = Some (boundSpec\<lparr>key := Some keyA\<rparr>) \<and>
   get toyEngine (fst (onHeadersReceived asciiLower sentStore dRedirect)) 1 0 urlB =
     Inr (Some (boundSpec\<lparr>key := Some keyB\<rparr>)) \<and>
   get toyEngine (fst (onHeadersReceived asciiLower sentStore dRedirect)) 1 0 urlA =
     Inr (Some plainSpec)"
proof -
  let ?spec = "boundSpec\<lparr>key := Some keyA\<rparr>"
  let ?p = "\<lparr>regexes = Undefined, urls = Val [urlA], tamper = Val plainSpec\<rparr>"
  have i: "storeInv sentStore"
    by (simp add: sentStore_eq storeInv_def settled_examples settled_key_update)
  have g: "getByRequestId sentStore (eventRequestId dRedirect) = Some ?spec"
    by (simp add: sentStore_eq getByRequestId_def deepClone_def dRedirect_def boundSpec_def)
  have r: "isRedirectStatus (statusCode dRedirect)"
    by (simp add: dRedirect_def isRedirectStatus_def)
  have h: "getHeader asciiLower (responseHeaders dRedirect) (str ''Location'') = Some urlB"
    by (simp add: dRedirect_def)
  have a: "applyResponseMods asciiLower ?spec (responseHeaders dRedirect) =
      Inr (responseHeaders dRedirect, Some (responseHeaders dRedirect))"
    unfolding applyResponseMods_eq
    by (simp add: boundSpec_def plainSpec_def responseModsRaise_def shadowsHasOwnProperty_def)
  have st': "fst (onHeadersReceived asciiLower sentStore dRedirect) =
      \<lparr>data = [(keyB, boundSpec\<lparr>key := Some keyB\<rparr>)], patternMods = [?p]\<rparr>"
    unfolding onHeadersReceived_redirect[OF i g r a h]
    by (simp add: dRedirect_def makeKey_urlB keyOf_def sentStore_eq)
  have a: "getDirect sentStore (makeKey 1 0 urlA) = Some ?spec"
    by (simp add: sentStore_eq getDirect_def deepClone_def makeKey_urlA)
  have b: "get toyEngine (fst (onHeadersReceived asciiLower sentStore dRedirect)) 1 0 urlB =
     Inr (Some (boundSpec\<lparr>key := Some keyB\<rparr>))"
    unfolding st' by (simp add: get_def getDirect_def deepClone_def makeKey_urlB)
  have c: "get toyEngine (fst (onHeadersReceived asciiLower sentStore dRedirect)) 1 0 urlA =
     Inr (Some plainSpec)"
    unfolding st'
    by (simp add: get_def getDirect_def deepClone_def makeKey_urlA keyA_neq_keyB
        scanPatternMods_def entryMatched_def)
  from a b c g show ?thesis by (simp add: dRedirect_def)
qed

section \<open>Properties of the transport codec\<close>

text \<open>
  C3 (the code departs from the claim). \<^verbatim>\<open>btoa\<close> writes the standard base64 alphabet,
  which has \<^verbatim>\<open>/\<close>. For the url \<^verbatim>\<open>http://a\<close> and the spec \<^verbatim>\<open>{headers: {A: "?"}}\<close> the token made
  by \<^verbatim>\<open>makeUrl\<close> contains \<^verbatim>\<open>/\<close>; the regular expression of \<^verbatim>\<open>onBeforeRequest\<close> then does not
  match the tagged url, and the listener stores nothing and redirects nothing, whatever
  the store and the other fields of the event are.
\<close>

theorem tagged_url_with_slash_not_recognized:
  "makeUrl toyStringify urlA questionSpec = Inr (urlA @ str ''$TamperApi:'' @ questionToken) \<and>
   47 \<in> set questionToken \<and>
   onBeforeRequest parse st (d\<lparr>url := urlA @ str ''$TamperApi:'' @ questionToken\<rparr>) =
     (st, Inr None)"
  by (simp add: makeUrl_def toyStringify_def questionText_token questionToken_slash
      onBeforeRequest_def matchTamperUrl_slash)

text \<open>
  C4. Decoding is the inverse of encoding: for every well-formed UTF-16 text,
  \<^verbatim>\<open>b64EncodeUnicode\<close> returns a token and \<^verbatim>\<open>b64DecodeUnicode\<close> of the token is the text; hence
  for every spec whose JSON text is well formed and is parsed back to the spec,
  \<^verbatim>\<open>decodeReqModifyOpts\<close> of the encoded JSON text is the spec.
\<close>

theorem transport_round_trip:
  "(wellFormedUtf16 plain \<longrightarrow>
      (\<exists>token. b64EncodeUnicode plain = Inr token \<and> b64DecodeUnicode token = Inr plain)) \<and>
   (wellFormedUtf16 (stringify s) \<and> parse (stringify s) = Inr (Val s) \<longrightarrow>
      (\<exists>token. b64EncodeUnicode (stringify s) = Inr token \<and>
         decodeReqModifyOpts parse token = Inr (Val s)))"
  using b64_round_trip[of plain] b64_round_trip[of "stringify s"]
  by (auto simp: decodeReqModifyOpts_def)

theorem transport_round_trip_witness:
  "wellFormedUtf16 (toyStringify questionSpec) \<and>
   toyParse (toyStringify questionSpec) = Inr (Val questionSpec) \<and>
   b64EncodeUnicode (toyStringify questionSpec) = Inr questionToken \<and>
   b64DecodeUnicode questionToken = Inr questionText \<and>
   decodeReqModifyOpts toyParse questionToken = Inr (Val questionSpec)"
proof -
  have s: "toyStringify questionSpec = questionText" by (simp add: toyStringify_def)
  have w: "wellFormedUtf16 (toyStringify questionSpec)" by (simp add: s questionText_wellFormed)
  have p: "toyParse (toyStringify questionSpec) = Inr (Val questionSpec)" by (simp add: s toyParse_def)
  have e: "b64EncodeUnicode (toyStringify questionSpec) = Inr questionToken"
    by (simp add: s questionText_token)
  from transport_round_trip[of questionText toyStringify questionSpec toyParse] w p
  have "(\<exists>token. b64EncodeUnicode questionText = Inr token \<and> b64DecodeUnicode token = Inr questionText) \<and>
     (\<exists>token. b64EncodeUnicode (toyStringify questionSpec) = Inr token \<and>
         decodeReqModifyOpts toyParse token = Inr (Val questionSpec))"
    using s by simp
  with e s have "b64DecodeUnicode questionToken = Inr questionText \<and>
      decodeReqModifyOpts toyParse questionToken = Inr (Val questionSpec)"
    by (auto simp: questionText_token)
  with w p e show ?thesis by blast
qed

end
